theory Spec2Isabelle
  imports Main "HOL-Library.AList"
begin

section \<open>Data model\<close>

text \<open>
  The differ is the class \<open>ChangeDetector\<close>. A cell is typed \<open>any\<close>; the values a
  snapshot holds are strings, numbers, booleans, \<open>null\<close> and \<open>undefined\<close>. The differ
  reads a number only through \<open>String(value)\<close> and through its truthiness, so a number
  is carried by its canonical text (what \<open>String\<close> returns for it; \<open>0\<close> and \<open>-0\<close> print
  as \<open>0\<close>). A string is a list of code units below 256. A row is a dense array (as
  JSON gives it), a table an array of rows. The limit an engine puts on the number of
  arguments of \<open>Math.max(...)\<close> is outside the model.
\<close>

datatype jsval = Undefined | Null | JBool bool | JNum string | JStr string

type_synonym row = "jsval list"

type_synonym table = "row list"

text \<open>
  \<open>SheetData\<close>: the own enumerable properties of a plain object, in the order
  \<open>Object.keys\<close> lists them.
\<close>

type_synonym snapshot = "(string \<times> table) list"

datatype changeType =
  EDIT | INSERT_ROW | INSERT_COLUMN | REMOVE_ROW | REMOVE_COLUMN
  | INSERT_GRID | REMOVE_GRID | FORMAT | OTHER

text \<open>A count that \<open>Math.max\<close> returns: a number, or \<open>NaN\<close> when an argument was \<open>undefined\<close>.\<close>

datatype jsnum = Num nat | NaN

record affectedRange =
  startRow :: nat
  endRow :: jsnum
  startColumn :: nat
  endColumn :: nat
  a1Notation :: string

text \<open>
  \<open>ChangeEvent\<close>, an optional field being \<open>None\<close> when the object literal leaves it out.
  The \<open>timestamp\<close> field is a reading of the wall clock and is not part of the model.
\<close>

record changeEvent =
  changeType :: changeType
  sheetName :: string
  affectedRange :: affectedRange
  cellAddress :: "string option"
  oldValue :: "jsval option"
  newValue :: "jsval option"
  rowIndex :: "nat option"
  columnIndex :: "nat option"
  insertedData :: "table option"
  deletedData :: "table option"

datatype error = TypeError

section \<open>Values\<close>

text \<open>\<open>String.prototype.trim\<close> strips white space and line terminators.\<close>

definition isWhiteSpace :: "char \<Rightarrow> bool" where
  "isWhiteSpace c =
     (c \<in> set [CHR 0x09, CHR 0x0A, CHR 0x0B, CHR 0x0C, CHR 0x0D, CHR 0x20, CHR 0xA0])"

definition trim :: "string \<Rightarrow> string" where
  "trim s = rev (dropWhile isWhiteSpace (rev (dropWhile isWhiteSpace s)))"

text \<open>\<open>String(value)\<close>.\<close>

fun toJsString :: "jsval \<Rightarrow> string" where
  "toJsString Undefined = ''undefined''"
| "toJsString Null = ''null''"
| "toJsString (JBool b) = (if b then ''true'' else ''false'')"
| "toJsString (JNum text) = text"
| "toJsString (JStr s) = s"

definition normalizeValue :: "jsval \<Rightarrow> string" where
  "normalizeValue v =
     (if v = Null \<or> v = Undefined then [] else trim (toJsString v))"

text \<open>Truthiness, as \<open>||\<close> tests it.\<close>

fun truthy :: "jsval \<Rightarrow> bool" where
  "truthy Undefined = False"
| "truthy Null = False"
| "truthy (JBool b) = b"
| "truthy (JNum text) = (text \<noteq> ''0'' \<and> text \<noteq> ''NaN'')"
| "truthy (JStr s) = (s \<noteq> [])"

text \<open>\<open>row[i]\<close>: \<open>undefined\<close> past the end of the array.\<close>

definition cellAt :: "row \<Rightarrow> nat \<Rightarrow> jsval" where
  "cellAt r i = (if i < length r then r ! i else Undefined)"

section \<open>Address formatter\<close>

text \<open>A non-negative integer in a template literal: its decimal digits.\<close>

fun natToString :: "nat \<Rightarrow> string" where
  "natToString n =
     (if n < 10 then [char_of (48 + n)]
      else natToString (n div 10) @ [char_of (48 + n mod 10)])"

declare natToString.simps [simp del]

fun numToString :: "jsnum \<Rightarrow> string" where
  "numToString (Num n) = natToString n"
| "numToString NaN = ''NaN''"

function columnToLetterLoop :: "nat \<Rightarrow> string \<Rightarrow> string" where
  "columnToLetterLoop column result =
     (if column > 0
      then columnToLetterLoop ((column - 1) div 26)
             (char_of (65 + (column - 1) mod 26) # result)
      else result)"
  by pat_completeness auto
termination
  by (relation "measure (\<lambda>(column, result). column)") auto

declare columnToLetterLoop.simps [simp del]

definition columnToLetter :: "nat \<Rightarrow> string" where
  "columnToLetter column = columnToLetterLoop column []"

section \<open>Insertion-ordered maps and sets\<close>

text \<open>
  A \<open>Map\<close> with string keys is the list of its entries in insertion order;
  \<open>Map.prototype.set\<close> is \<open>AList.update\<close> (a new key goes last), \<open>get\<close> is \<open>map_of\<close>.
\<close>

type_synonym 'v jsmap = "(string \<times> 'v) list"

definition mapHas :: "'v jsmap \<Rightarrow> string \<Rightarrow> bool" where
  "mapHas m k = (map_of m k \<noteq> None)"

definition setAdd :: "string list \<Rightarrow> string \<Rightarrow> string list" where
  "setAdd s x = (if x \<in> set s then s else s @ [x])"

section \<open>Reading a sheet out of a snapshot\<close>

text \<open>
  \<open>data[sheetName] || []\<close> on a plain object: the own property when there is one,
  else the property \<open>Object.prototype\<close> has under that name, else \<open>[]\<close>. The inherited
  values are functions (with the \<open>length\<close> the standard gives them) and, under
  \<open>__proto__\<close>, the prototype object itself; all of them are truthy.
\<close>

datatype tblval = Arr table | Fn nat | ProtoObj

definition objectPrototype :: "string \<Rightarrow> tblval option" where
  "objectPrototype name =
     map_of
       [(''constructor'', Fn 1), (''hasOwnProperty'', Fn 1), (''isPrototypeOf'', Fn 1),
        (''propertyIsEnumerable'', Fn 1), (''toLocaleString'', Fn 0), (''toString'', Fn 0),
        (''valueOf'', Fn 0), (''__defineGetter__'', Fn 2), (''__defineSetter__'', Fn 2),
        (''__lookupGetter__'', Fn 1), (''__lookupSetter__'', Fn 1),
        (''__proto__'', ProtoObj)] name"

definition lookupSheet :: "snapshot \<Rightarrow> string \<Rightarrow> tblval" where
  "lookupSheet data name =
     (case map_of data name of
        Some t \<Rightarrow> Arr t
      | None \<Rightarrow> (case objectPrototype name of Some v \<Rightarrow> v | None \<Rightarrow> Arr []))"

text \<open>\<open>t.length\<close>; \<open>None\<close> is \<open>undefined\<close>.\<close>

fun tblLength :: "tblval \<Rightarrow> nat option" where
  "tblLength (Arr rs) = Some (length rs)"
| "tblLength (Fn n) = Some n"
| "tblLength ProtoObj = None"

text \<open>
  \<open>t.length > 0 ? t[0] : []\<close>; \<open>None\<close> is \<open>undefined\<close>, which a function returns for
  the index 0.
\<close>

fun headerOf :: "tblval \<Rightarrow> row option" where
  "headerOf (Arr rs) = (if length rs > 0 then Some (hd rs) else Some [])"
| "headerOf (Fn n) = (if n > 0 then None else Some [])"
| "headerOf ProtoObj = Some []"

text \<open>\<open>t.length > 1 ? t.slice(1) : []\<close>; a function has no \<open>slice\<close>.\<close>

fun dataRowsOf :: "tblval \<Rightarrow> error + table" where
  "dataRowsOf (Arr rs) = Inr (if length rs > 1 then drop 1 rs else [])"
| "dataRowsOf (Fn n) = (if n > 1 then Inl TypeError else Inr [])"
| "dataRowsOf ProtoObj = Inr []"

fun mathMax2 :: "nat option \<Rightarrow> nat option \<Rightarrow> jsnum" where
  "mathMax2 (Some a) (Some b) = Num (max a b)"
| "mathMax2 _ _ = NaN"

section \<open>Header and key maps\<close>

text \<open>
  The \<open>forEach\<close> loops that build \<open>prevColMap\<close> and \<open>currColMap\<close> (the same loop, four
  times in the source): the first index of each normalized header text.
\<close>

fun buildColMap :: "row \<Rightarrow> nat \<Rightarrow> nat jsmap \<Rightarrow> nat jsmap" where
  "buildColMap [] index m = m"
| "buildColMap (headerName # rest) index m =
     (let normalizedName = normalizeValue headerName in
      buildColMap rest (index + 1)
        (if \<not> mapHas m normalizedName then AList.update normalizedName index m else m))"

text \<open>
  The loops that build \<open>prevRowMap\<close> and \<open>currRowMap\<close>: the first index of each
  non-empty normalized primary key.
\<close>

fun buildRowMap :: "table \<Rightarrow> nat \<Rightarrow> nat jsmap \<Rightarrow> nat jsmap" where
  "buildRowMap [] index m = m"
| "buildRowMap (r # rest) index m =
     (let primaryKey = normalizeValue (cellAt r 0) in
      buildRowMap rest (index + 1)
        (if primaryKey \<noteq> [] \<and> \<not> mapHas m primaryKey
         then AList.update primaryKey index m else m))"

section \<open>Phase 1: columns\<close>

text \<open>\<open>rows.map(row => [row[idx] || '']).filter(([val]) => val !== '')\<close>.\<close>

definition columnValues :: "table \<Rightarrow> nat \<Rightarrow> table" where
  "columnValues rows idx =
     filter (\<lambda>cell. hd cell \<noteq> JStr [])
       (map (\<lambda>r. [if truthy (cellAt r idx) then cellAt r idx else JStr []]) rows)"

definition columnRange :: "nat \<Rightarrow> jsnum \<Rightarrow> affectedRange" where
  "columnRange colIdx maxRow =
     \<lparr> startRow = 1, endRow = maxRow, startColumn = colIdx + 1, endColumn = colIdx + 1,
       a1Notation = columnToLetter (colIdx + 1) @ ''1:'' @ columnToLetter (colIdx + 1)
                    @ numToString maxRow \<rparr>"

definition insertColumnEvent :: "string \<Rightarrow> nat \<Rightarrow> jsnum \<Rightarrow> table \<Rightarrow> changeEvent" where
  "insertColumnEvent name currColIdx maxRow vals =
     \<lparr> changeType = INSERT_COLUMN, sheetName = name,
       affectedRange = columnRange currColIdx maxRow,
       cellAddress = None, oldValue = None, newValue = None, rowIndex = None,
       columnIndex = Some (currColIdx + 1), insertedData = Some vals, deletedData = None \<rparr>"

definition removeColumnEvent :: "string \<Rightarrow> nat \<Rightarrow> jsnum \<Rightarrow> table \<Rightarrow> changeEvent" where
  "removeColumnEvent name prevColIdx maxRow vals =
     \<lparr> changeType = REMOVE_COLUMN, sheetName = name,
       affectedRange = columnRange prevColIdx maxRow,
       cellAddress = None, oldValue = None, newValue = None, rowIndex = None,
       columnIndex = Some (prevColIdx + 1), insertedData = None, deletedData = Some vals \<rparr>"

text \<open>
  The slice inside the loops cannot throw: a value with a \<open>length\<close> above 1 and no
  \<open>slice\<close> has no element 0 either, and \<open>forEach\<close> on its missing header has thrown
  before (lemma \<open>headerOf_dataRowsOf\<close>).
\<close>

definition slicedRows :: "tblval \<Rightarrow> table" where
  "slicedRows t = (case dataRowsOf t of Inr rows \<Rightarrow> rows | Inl e \<Rightarrow> [])"

text \<open>The two loops of \<open>detectColumnChanges\<close> over the entries of the header maps.\<close>

definition columnEvents ::
  "row \<Rightarrow> row \<Rightarrow> jsnum \<Rightarrow> table \<Rightarrow> table \<Rightarrow> string \<Rightarrow> changeEvent list" where
  "columnEvents prevHeader currHeader maxRow prevRows currRows name =
     (let prevColMap = buildColMap prevHeader 0 [];
          currColMap = buildColMap currHeader 0 []
      in concat (map (\<lambda>(headerName, currColIdx).
                if \<not> mapHas prevColMap headerName
                then [insertColumnEvent name currColIdx maxRow
                        (columnValues currRows currColIdx)]
                else []) currColMap)
         @ concat (map (\<lambda>(headerName, prevColIdx).
                if \<not> mapHas currColMap headerName
                then [removeColumnEvent name prevColIdx maxRow
                        (columnValues prevRows prevColIdx)]
                else []) prevColMap))"

text \<open>
  \<open>detectColumnChanges\<close>: \<open>forEach\<close> on a header that is \<open>undefined\<close> throws; otherwise
  the loops run, with \<open>maxRow = Math.max(previous.length, current.length)\<close>.
\<close>

definition detectColumnChanges :: "tblval \<Rightarrow> tblval \<Rightarrow> string \<Rightarrow> error + changeEvent list" where
  "detectColumnChanges previous current name =
     (case headerOf previous of None \<Rightarrow> Inl TypeError | Some prevHeader \<Rightarrow>
     (case headerOf current of None \<Rightarrow> Inl TypeError | Some currHeader \<Rightarrow>
        Inr (columnEvents prevHeader currHeader
               (mathMax2 (tblLength previous) (tblLength current))
               (slicedRows previous) (slicedRows current) name)))"

section \<open>Phase 2: rows\<close>

definition rowRange :: "nat \<Rightarrow> nat \<Rightarrow> affectedRange" where
  "rowRange actualRowNum maxCol =
     \<lparr> startRow = actualRowNum, endRow = Num actualRowNum, startColumn = 1,
       endColumn = maxCol,
       a1Notation = natToString actualRowNum @ '':'' @ natToString actualRowNum \<rparr>"

definition insertRowEvent :: "string \<Rightarrow> nat \<Rightarrow> nat \<Rightarrow> row \<Rightarrow> changeEvent" where
  "insertRowEvent name actualRowNum maxCol r =
     \<lparr> changeType = INSERT_ROW, sheetName = name,
       affectedRange = rowRange actualRowNum maxCol,
       cellAddress = None, oldValue = None, newValue = None,
       rowIndex = Some actualRowNum, columnIndex = None,
       insertedData = Some [r], deletedData = None \<rparr>"

definition removeRowEvent :: "string \<Rightarrow> nat \<Rightarrow> nat \<Rightarrow> row \<Rightarrow> changeEvent" where
  "removeRowEvent name actualRowNum maxCol r =
     \<lparr> changeType = REMOVE_ROW, sheetName = name,
       affectedRange = rowRange actualRowNum maxCol,
       cellAddress = None, oldValue = None, newValue = None,
       rowIndex = Some actualRowNum, columnIndex = None,
       insertedData = None, deletedData = Some [r] \<rparr>"

text \<open>
  \<open>Math.max(...prevDataRows.map(r => r.length), ...currDataRows.map(r => r.length),
  row.length)\<close>.
\<close>

definition maxCol :: "table \<Rightarrow> table \<Rightarrow> row \<Rightarrow> nat" where
  "maxCol prevDataRows currDataRows r =
     fold max (map length prevDataRows @ map length currDataRows) (length r)"

text \<open>The two loops of \<open>detectRowChanges\<close> over the entries of the key maps.\<close>

definition rowEvents :: "table \<Rightarrow> table \<Rightarrow> string \<Rightarrow> changeEvent list" where
  "rowEvents prevDataRows currDataRows name =
     (let prevRowMap = buildRowMap prevDataRows 0 [];
          currRowMap = buildRowMap currDataRows 0 []
      in concat (map (\<lambda>(primaryKey, currRowIdx).
                if \<not> mapHas prevRowMap primaryKey
                then [insertRowEvent name (currRowIdx + 2)
                        (maxCol prevDataRows currDataRows (currDataRows ! currRowIdx))
                        (currDataRows ! currRowIdx)]
                else []) currRowMap)
         @ concat (map (\<lambda>(primaryKey, prevRowIdx).
                if \<not> mapHas currRowMap primaryKey
                then [removeRowEvent name (prevRowIdx + 2)
                        (maxCol prevDataRows currDataRows (prevDataRows ! prevRowIdx))
                        (prevDataRows ! prevRowIdx)]
                else []) prevRowMap))"

definition detectRowChanges :: "tblval \<Rightarrow> tblval \<Rightarrow> string \<Rightarrow> error + changeEvent list" where
  "detectRowChanges previous current name =
     (case dataRowsOf previous of Inl e \<Rightarrow> Inl e | Inr prevDataRows \<Rightarrow>
     (case dataRowsOf current of Inl e \<Rightarrow> Inl e | Inr currDataRows \<Rightarrow>
        Inr (rowEvents prevDataRows currDataRows name)))"

section \<open>Phase 3: cell edits\<close>

text \<open>The loop that fills \<open>columnMapping\<close> from the entries of \<open>prevColMap\<close>.\<close>

fun buildColumnMapping ::
  "nat jsmap \<Rightarrow> nat jsmap \<Rightarrow> (nat \<times> nat) jsmap \<Rightarrow> (nat \<times> nat) jsmap" where
  "buildColumnMapping [] currColMap m = m"
| "buildColumnMapping ((headerName, prevIdx) # rest) currColMap m =
     buildColumnMapping rest currColMap
       (case map_of currColMap headerName of
          Some currIdx \<Rightarrow> AList.update headerName (prevIdx, currIdx) m
        | None \<Rightarrow> m)"

definition editEvent :: "string \<Rightarrow> nat \<Rightarrow> nat \<Rightarrow> jsval \<Rightarrow> jsval \<Rightarrow> changeEvent" where
  "editEvent name actualRowNum currIdx prevValue currValue =
     (let cellAddress = columnToLetter (currIdx + 1) @ natToString actualRowNum in
      \<lparr> changeType = EDIT, sheetName = name,
        affectedRange =
          \<lparr> startRow = actualRowNum, endRow = Num actualRowNum,
            startColumn = currIdx + 1, endColumn = currIdx + 1,
            a1Notation = cellAddress \<rparr>,
        cellAddress = Some cellAddress, oldValue = Some prevValue,
        newValue = Some currValue, rowIndex = None, columnIndex = None,
        insertedData = None, deletedData = None \<rparr>)"

text \<open>\<open>row[idx] !== undefined ? row[idx] : ''\<close>.\<close>

definition cellOrEmpty :: "row \<Rightarrow> nat \<Rightarrow> jsval" where
  "cellOrEmpty r idx = (if cellAt r idx \<noteq> Undefined then cellAt r idx else JStr [])"

text \<open>The inner loop over \<open>columnMapping\<close>, for one matched pair of rows.\<close>

definition rowEdits ::
  "string \<Rightarrow> (nat \<times> nat) jsmap \<Rightarrow> row \<Rightarrow> row \<Rightarrow> nat \<Rightarrow> changeEvent list" where
  "rowEdits name columnMapping prevRow currRow actualRowNum =
     concat (map (\<lambda>(headerName, (prevIdx, currIdx)).
       if prevIdx = 0 \<and> currIdx = 0 then []
       else (let prevValue = cellOrEmpty prevRow prevIdx;
                 currValue = cellOrEmpty currRow currIdx
             in if normalizeValue prevValue \<noteq> normalizeValue currValue
                then [editEvent name actualRowNum currIdx prevValue currValue]
                else [])) columnMapping)"

text \<open>The maps and the outer loop of \<open>detectCellEdits\<close> over the entries of \<open>prevRowMap\<close>.\<close>

definition cellEvents :: "row \<Rightarrow> row \<Rightarrow> table \<Rightarrow> table \<Rightarrow> string \<Rightarrow> changeEvent list" where
  "cellEvents prevHeader currHeader prevDataRows currDataRows name =
     (let prevColMap = buildColMap prevHeader 0 [];
          currColMap = buildColMap currHeader 0 [];
          columnMapping = buildColumnMapping prevColMap currColMap [];
          prevRowMap = buildRowMap prevDataRows 0 [];
          currRowMap = buildRowMap currDataRows 0 []
      in concat (map (\<lambda>(primaryKey, prevRowIdx).
                (case map_of currRowMap primaryKey of
                   None \<Rightarrow> []
                 | Some currRowIdx \<Rightarrow>
                     rowEdits name columnMapping (prevDataRows ! prevRowIdx)
                       (currDataRows ! currRowIdx) (currRowIdx + 2))) prevRowMap))"

definition detectCellEdits :: "tblval \<Rightarrow> tblval \<Rightarrow> string \<Rightarrow> error + changeEvent list" where
  "detectCellEdits previous current name =
     (case dataRowsOf previous of Inl e \<Rightarrow> Inl e | Inr prevDataRows \<Rightarrow>
     (case dataRowsOf current of Inl e \<Rightarrow> Inl e | Inr currDataRows \<Rightarrow>
     (case headerOf previous of None \<Rightarrow> Inl TypeError | Some prevHeader \<Rightarrow>
     (case headerOf current of None \<Rightarrow> Inl TypeError | Some currHeader \<Rightarrow>
        Inr (cellEvents prevHeader currHeader prevDataRows currDataRows name)))))"

section \<open>Orchestration\<close>

definition allSheetNames :: "snapshot \<Rightarrow> snapshot \<Rightarrow> string list" where
  "allSheetNames previousData currentData =
     foldl setAdd [] (map fst previousData @ map fst currentData)"

text \<open>The three phases on one sheet that is not empty in both snapshots.\<close>

definition sheetChanges :: "tblval \<Rightarrow> tblval \<Rightarrow> string \<Rightarrow> error + changeEvent list" where
  "sheetChanges previous current name =
     (case detectColumnChanges previous current name of Inl e \<Rightarrow> Inl e | Inr columnChanges \<Rightarrow>
     (case detectRowChanges previous current name of Inl e \<Rightarrow> Inl e | Inr rowChanges \<Rightarrow>
     (case detectCellEdits previous current name of Inl e \<Rightarrow> Inl e | Inr cellChanges \<Rightarrow>
        Inr (columnChanges @ rowChanges @ cellChanges))))"

fun detectLoop ::
  "snapshot \<Rightarrow> snapshot \<Rightarrow> string list \<Rightarrow> changeEvent list \<Rightarrow> error + changeEvent list" where
  "detectLoop previousData currentData [] changes = Inr changes"
| "detectLoop previousData currentData (name # names) changes =
     (let previous = lookupSheet previousData name;
          current = lookupSheet currentData name
      in if tblLength previous = Some 0 \<and> tblLength current = Some 0
         then detectLoop previousData currentData names changes
         else (case sheetChanges previous current name of
                 Inl e \<Rightarrow> Inl e
               | Inr found \<Rightarrow> detectLoop previousData currentData names (changes @ found)))"

definition detectChanges :: "snapshot \<Rightarrow> snapshot \<Rightarrow> error + changeEvent list" where
  "detectChanges previousData currentData =
     detectLoop previousData currentData (allSheetNames previousData currentData) []"

section \<open>Definitions used to state and prove the properties\<close>

text \<open>The \<open>r\<close>-th letter of the alphabet, for \<open>r\<close> from 1 to 26.\<close>

definition letter :: "nat \<Rightarrow> char" where
  "letter r = ''ABCDEFGHIJKLMNOPQRSTUVWXYZ'' ! (r - 1)"

text \<open>
  What a first-occurrence loop appends to its map: the keys of \<open>ks\<close> that pass \<open>ok\<close> and
  are not in \<open>S\<close>, each once, with the index of its first occurrence (counted from \<open>i\<close>).
\<close>

fun firstIndices :: "(string \<Rightarrow> bool) \<Rightarrow> string list \<Rightarrow> nat \<Rightarrow> string set \<Rightarrow> nat jsmap" where
  "firstIndices ok [] i S = []"
| "firstIndices ok (k # ks) i S =
     (if ok k \<and> k \<notin> S then (k, i) # firstIndices ok ks (i + 1) (insert k S)
      else firstIndices ok ks (i + 1) S)"

text \<open>
  One pass of the loop of \<open>detectChanges\<close>: what the sheet \<open>name\<close> contributes (nothing
  when it is empty in both snapshots), or the error its phases stop with.
\<close>

definition sheetResult :: "snapshot \<Rightarrow> snapshot \<Rightarrow> string \<Rightarrow> error + changeEvent list" where
  "sheetResult previousData currentData name =
     (let previous = lookupSheet previousData name;
          current = lookupSheet currentData name
      in if tblLength previous = Some 0 \<and> tblLength current = Some 0 then Inr []
         else sheetChanges previous current name)"

definition sheetEvents :: "snapshot \<Rightarrow> snapshot \<Rightarrow> string \<Rightarrow> changeEvent list" where
  "sheetEvents previousData currentData name =
     (case sheetResult previousData currentData name of Inr found \<Rightarrow> found | Inl e \<Rightarrow> [])"

text \<open>The header row and the data rows of a table that is an array.\<close>

definition headerRow :: "table \<Rightarrow> row" where
  "headerRow t = (if length t > 0 then hd t else [])"

definition dataRows :: "table \<Rightarrow> table" where
  "dataRows t = (if length t > 1 then drop 1 t else [])"

text \<open>The three kinds of event, by the phase that emits them.\<close>

definition isColumnEvent :: "changeEvent \<Rightarrow> bool" where
  "isColumnEvent e = (changeType e = INSERT_COLUMN \<or> changeType e = REMOVE_COLUMN)"

definition isRowEvent :: "changeEvent \<Rightarrow> bool" where
  "isRowEvent e = (changeType e = INSERT_ROW \<or> changeType e = REMOVE_ROW)"

definition isEditEvent :: "changeEvent \<Rightarrow> bool" where
  "isEditEvent e = (changeType e = EDIT)"

section \<open>The address formatter\<close>

lemma div26_less: "0 < (n::nat) \<Longrightarrow> (n - 1) div 26 < n"
  by (rule le_less_trans [OF div_le_dividend]) simp

lemma columnToLetterLoop_acc:
  "columnToLetterLoop column result = columnToLetterLoop column [] @ result"
proof (induction column arbitrary: result rule: less_induct)
  case (less column)
  show ?case
  proof (cases "column > 0")
    case True
    let ?c = "char_of (65 + (column - 1) mod 26) :: char"
    let ?q = "(column - 1) div 26"
    have q: "?q < column" using True by (rule div26_less)
    have "columnToLetterLoop column result = columnToLetterLoop ?q (?c # result)"
      using True by (subst columnToLetterLoop.simps) simp
    also have "\<dots> = columnToLetterLoop ?q [] @ ?c # result"
      using less.IH [OF q] .
    also have "\<dots> = (columnToLetterLoop ?q [] @ [?c]) @ result"
      by simp
    also have "columnToLetterLoop ?q [] @ [?c] = columnToLetterLoop ?q [?c]"
      using less.IH [OF q, of "[?c]"] by simp
    also have "columnToLetterLoop ?q [?c] = columnToLetterLoop column []"
      using True by (subst (2) columnToLetterLoop.simps) simp
    finally show ?thesis .
  next
    case False
    then show ?thesis by (subst (1 2) columnToLetterLoop.simps) simp
  qed
qed

lemma letters_table:
  "list_all (\<lambda>i. char_of (65 + i) = ''ABCDEFGHIJKLMNOPQRSTUVWXYZ'' ! i) [0..<26]"
  by code_simp

lemma letter_char: "1 \<le> r \<Longrightarrow> r \<le> 26 \<Longrightarrow> char_of (65 + (r - 1)) = letter r"
proof -
  assume "1 \<le> r" "r \<le> 26"
  then have "r - 1 \<in> set [0..<26]" by auto
  then show ?thesis
    using letters_table unfolding letter_def list_all_iff by blast
qed

lemma columnToLetter_step:
  assumes "1 \<le> r" "r \<le> 26"
  shows "columnToLetter (26 * q + r) = columnToLetter q @ [letter r]"
proof -
  have e: "26 * q + r - 1 = (r - 1) + q * 26" using assms by simp
  have lt: "r - 1 < 26" using assms by simp
  have d: "(26 * q + r - 1) div 26 = q" unfolding e using lt by simp
  have m: "(26 * q + r - 1) mod 26 = r - 1" unfolding e using lt by simp
  have "columnToLetter (26 * q + r) = columnToLetterLoop q [char_of (65 + (r - 1))]"
    unfolding columnToLetter_def using assms d m
    by (subst columnToLetterLoop.simps) simp
  also have "\<dots> = columnToLetter q @ [letter r]"
    unfolding columnToLetter_def using columnToLetterLoop_acc [of q "[char_of (65 + (r - 1))]"] letter_char [OF assms]
    by simp
  finally show ?thesis .
qed

lemma columnToLetter_0: "columnToLetter 0 = []"
  unfolding columnToLetter_def by (subst columnToLetterLoop.simps) simp

lemma letter_inj: "1 \<le> r \<Longrightarrow> r \<le> 26 \<Longrightarrow> 1 \<le> r' \<Longrightarrow> r' \<le> 26 \<Longrightarrow> letter r = letter r' \<Longrightarrow> r = r'"
proof -
  assume a: "1 \<le> r" "r \<le> 26" "1 \<le> r'" "r' \<le> 26" "letter r = letter r'"
  have "of_char (char_of (65 + (r - 1)) :: char) = (of_char (char_of (65 + (r' - 1)) :: char) :: nat)"
    using a letter_char by simp
  then have "(65 + (r - 1)) mod 256 = (65 + (r' - 1)) mod 256"
    by (simp only: of_char_of)
  then show ?thesis using a by simp
qed

lemma decompose: "0 < (n::nat) \<Longrightarrow> n = 26 * ((n - 1) div 26) + ((n - 1) mod 26 + 1)"
  by simp

lemma columnToLetter_inj_aux: "columnToLetter n = columnToLetter n' \<Longrightarrow> n = n'"
proof (induction n arbitrary: n' rule: less_induct)
  case (less n)
  show ?case
  proof (cases "n = 0 \<or> n' = 0")
    case True
    have nz: "columnToLetter k \<noteq> []" if "0 < k" for k
      using columnToLetter_step [of "(k - 1) mod 26 + 1" "(k - 1) div 26"] decompose [OF that] by simp
    show ?thesis
    proof (rule ccontr)
      assume ne: "n \<noteq> n'"
      with True have "(n = 0 \<and> 0 < n') \<or> (n' = 0 \<and> 0 < n)" by auto
      then show False using less.prems nz [of n] nz [of n'] columnToLetter_0 by auto
    qed
  next
    case False
    let ?q = "(n - 1) div 26" and ?r = "(n - 1) mod 26 + 1"
    let ?q' = "(n' - 1) div 26" and ?r' = "(n' - 1) mod 26 + 1"
    have n: "n = 26 * ?q + ?r" and n': "n' = 26 * ?q' + ?r'" using False by simp_all
    have "columnToLetter n = columnToLetter ?q @ [letter ?r]"
      using columnToLetter_step [of ?r ?q] n by simp
    moreover have "columnToLetter n' = columnToLetter ?q' @ [letter ?r']"
      using columnToLetter_step [of ?r' ?q'] n' by simp
    ultimately have eq: "columnToLetter ?q = columnToLetter ?q'" "letter ?r = letter ?r'"
      using less.prems by simp_all
    have "?q < n" using False by (intro div26_less) simp
    then have "?q = ?q'" using less.IH eq(1) by blast
    moreover have "?r = ?r'" using letter_inj [of ?r ?r'] eq(2) by simp
    ultimately show ?thesis using n n' by metis
  qed
qed

lemma letter_in: "1 \<le> r \<Longrightarrow> r \<le> 26 \<Longrightarrow> letter r \<in> set ''ABCDEFGHIJKLMNOPQRSTUVWXYZ''"
  unfolding letter_def by (intro nth_mem) simp

lemma columnToLetter_letters: "set (columnToLetter n) \<subseteq> set ''ABCDEFGHIJKLMNOPQRSTUVWXYZ''"
proof (induction n rule: less_induct)
  case (less n)
  show ?case
  proof (cases "n = 0")
    case True
    then show ?thesis by (simp add: columnToLetter_0)
  next
    case False
    let ?q = "(n - 1) div 26" and ?r = "(n - 1) mod 26 + 1"
    have n: "n = 26 * ?q + ?r" using False by simp
    have s: "columnToLetter n = columnToLetter ?q @ [letter ?r]"
      using columnToLetter_step [of ?r ?q] n by simp
    have "?q < n" using False by (intro div26_less) simp
    then have "set (columnToLetter ?q) \<subseteq> set ''ABCDEFGHIJKLMNOPQRSTUVWXYZ''" using less.IH by blast
    moreover have "letter ?r \<in> set ''ABCDEFGHIJKLMNOPQRSTUVWXYZ''" by (intro letter_in) simp_all
    ultimately show ?thesis unfolding s by simp
  qed
qed

lemma letter_surj: "c \<in> set ''ABCDEFGHIJKLMNOPQRSTUVWXYZ'' \<Longrightarrow> \<exists>r. 1 \<le> r \<and> r \<le> 26 \<and> letter r = c"
proof -
  assume "c \<in> set ''ABCDEFGHIJKLMNOPQRSTUVWXYZ''"
  then obtain i where "i < length ''ABCDEFGHIJKLMNOPQRSTUVWXYZ''" "''ABCDEFGHIJKLMNOPQRSTUVWXYZ'' ! i = c"
    unfolding in_set_conv_nth by blast
  then have "i < 26" "''ABCDEFGHIJKLMNOPQRSTUVWXYZ'' ! i = c" by simp_all
  then have "1 \<le> i + 1 \<and> i + 1 \<le> 26 \<and> letter (i + 1) = c"
    by (simp add: letter_def)
  then show ?thesis by blast
qed

lemma columnToLetter_surj:
  "set s \<subseteq> set ''ABCDEFGHIJKLMNOPQRSTUVWXYZ'' \<Longrightarrow> \<exists>n. columnToLetter n = s"
proof (induction s rule: rev_induct)
  case Nil
  then show ?case using columnToLetter_0 by blast
next
  case (snoc c s)
  then obtain q where q: "columnToLetter q = s" by auto
  from snoc.prems obtain r where r: "1 \<le> r" "r \<le> 26" "letter r = c"
    using letter_surj [of c] by auto
  have "columnToLetter (26 * q + r) = s @ [c]"
    using columnToLetter_step [OF r(1,2), of q] q r(3) by simp
  then show ?case by blast
qed

section \<open>The value normalizer\<close>

lemma rev_split_dropWhile:
  "xs = rev (dropWhile P (rev xs)) @ rev (takeWhile P (rev xs))"
  by (metis rev_append rev_rev_ident takeWhile_dropWhile_id)

lemma trim_decomp:
  "\<exists>pre post. s = pre @ trim s @ post \<and> list_all isWhiteSpace pre \<and> list_all isWhiteSpace post"
proof -
  let ?d = "dropWhile isWhiteSpace s"
  let ?pre = "takeWhile isWhiteSpace s"
  let ?post = "rev (takeWhile isWhiteSpace (rev ?d))"
  have d: "?d = trim s @ ?post"
    unfolding trim_def by (rule rev_split_dropWhile)
  have "s = ?pre @ ?d" by simp
  with d have "s = ?pre @ trim s @ ?post" by simp
  moreover have "list_all isWhiteSpace ?pre"
    unfolding list_all_iff using set_takeWhileD by fastforce
  moreover have "list_all isWhiteSpace ?post"
    unfolding list_all_iff using set_takeWhileD by fastforce
  ultimately show ?thesis by blast
qed

lemma trim_ends:
  assumes "trim s \<noteq> []"
  shows "\<not> isWhiteSpace (hd (trim s)) \<and> \<not> isWhiteSpace (last (trim s))"
proof -
  let ?d = "dropWhile isWhiteSpace s"
  let ?e = "dropWhile isWhiteSpace (rev ?d)"
  have e: "trim s = rev ?e" by (simp add: trim_def)
  with assms have ne: "?e \<noteq> []" by simp
  have l: "\<not> isWhiteSpace (last (trim s))"
    unfolding e using ne hd_dropWhile [of isWhiteSpace "rev ?d"] by (simp add: last_rev)
  have d: "?d = trim s @ rev (takeWhile isWhiteSpace (rev ?d))"
    unfolding trim_def by (rule rev_split_dropWhile)
  then have "hd ?d = hd (trim s)" using assms by (metis hd_append2)
  moreover have "?d \<noteq> []" using d assms by (metis append_is_Nil_conv)
  then have "\<not> isWhiteSpace (hd ?d)" by (rule hd_dropWhile)
  ultimately show ?thesis using l by simp
qed

lemma trim_fixed: "s = [] \<or> (\<not> isWhiteSpace (hd s) \<and> \<not> isWhiteSpace (last s)) \<Longrightarrow> trim s = s"
proof (cases "s = []")
  case True
  then show ?thesis by (simp add: trim_def)
next
  case False
  assume "s = [] \<or> (\<not> isWhiteSpace (hd s) \<and> \<not> isWhiteSpace (last s))"
  with False have h: "\<not> isWhiteSpace (hd s)" "\<not> isWhiteSpace (last s)" by simp_all
  have 1: "dropWhile isWhiteSpace s = s" using False h(1) by (cases s) simp_all
  have "hd (rev s) = last s" using False by (simp add: hd_rev)
  moreover have "rev s \<noteq> []" using False by simp
  ultimately have 2: "dropWhile isWhiteSpace (rev s) = rev s"
    using h(2) by (metis dropWhile.simps(2) list.collapse)
  show ?thesis by (simp add: trim_def 1 2)
qed

section \<open>First-occurrence maps\<close>

lemma mapHas_iff: "mapHas m k \<longleftrightarrow> k \<in> fst ` set m"
  by (simp add: mapHas_def map_of_eq_None_iff)

lemma update_fresh: "k \<notin> fst ` set m \<Longrightarrow> AList.update k v m = m @ [(k, v)]"
  by (induction m) auto

lemma buildColMap_firstIndices:
  "buildColMap h i m = m @ firstIndices (\<lambda>k. True) (map normalizeValue h) i (fst ` set m)"
  by (induction h arbitrary: i m) (simp_all add: mapHas_iff update_fresh Let_def)

lemma buildRowMap_firstIndices:
  "buildRowMap rows i m =
     m @ firstIndices (\<lambda>k. k \<noteq> []) (map (\<lambda>r. normalizeValue (cellAt r 0)) rows) i (fst ` set m)"
  by (induction rows arbitrary: i m) (simp_all add: mapHas_iff update_fresh Let_def)

lemma firstIndices_keys:
  "fst ` set (firstIndices ok ks i S) = {k \<in> set ks. ok k} - S"
  by (induction ks arbitrary: i S) auto

lemma firstIndices_distinct: "distinct (map fst (firstIndices ok ks i S))"
proof (induction ks arbitrary: i S)
  case Nil
  then show ?case by simp
next
  case (Cons k ks)
  have "k \<notin> fst ` set (firstIndices ok ks (i + 1) (insert k S))"
    by (simp add: firstIndices_keys)
  with Cons show ?case by simp
qed

lemma firstIndices_sound:
  "(k, j) \<in> set (firstIndices ok ks i S) \<Longrightarrow>
     i \<le> j \<and> j < i + length ks \<and> ks ! (j - i) = k \<and> ok k \<and> k \<notin> S"
proof (induction ks arbitrary: i S)
  case Nil
  then show ?case by simp
next
  case (Cons a ks)
  show ?case
  proof (cases "(k, j) = (a, i) \<and> ok a \<and> a \<notin> S")
    case True
    then show ?thesis by simp
  next
    case False
    with Cons.prems have "(k, j) \<in> set (firstIndices ok ks (i + 1) (insert a S))
        \<or> (k, j) \<in> set (firstIndices ok ks (i + 1) S)"
      by (auto split: if_splits)
    then have "i + 1 \<le> j \<and> j < i + 1 + length ks \<and> ks ! (j - (i + 1)) = k \<and> ok k \<and> k \<notin> S"
      using Cons.IH by blast
    then show ?thesis by (auto simp: nth_Cons')
  qed
qed

lemma firstIndices_cong:
  "(\<And>x. x \<in> set ks \<Longrightarrow> x \<in> S \<longleftrightarrow> x \<in> S') \<Longrightarrow>
     firstIndices ok ks i S = firstIndices ok ks i S'"
proof (induction ks arbitrary: i S S')
  case Nil
  then show ?case by simp
next
  case (Cons a ks)
  have a: "a \<in> S \<longleftrightarrow> a \<in> S'" using Cons.prems by simp
  have 1: "firstIndices ok ks (i + 1) S = firstIndices ok ks (i + 1) S'"
    using Cons.prems by (intro Cons.IH) simp
  have 2: "firstIndices ok ks (i + 1) (insert a S) = firstIndices ok ks (i + 1) (insert a S')"
    using Cons.prems by (intro Cons.IH) auto
  show ?case using a 1 2 by simp
qed

lemma firstIndices_append:
  "firstIndices ok (as @ bs) i S =
     firstIndices ok as i S @ firstIndices ok bs (i + length as) (S \<union> {k \<in> set as. ok k})"
proof (induction as arbitrary: i S)
  case Nil
  then show ?case by simp
next
  case (Cons a as)
  have e1: "insert a S \<union> {k \<in> set as. ok k} = S \<union> {k \<in> set (a # as). ok k}" if "ok a"
    using that by auto
  have e2: "firstIndices ok bs (Suc (i + length as)) (S \<union> {k \<in> set as. ok k})
          = firstIndices ok bs (Suc (i + length as)) (S \<union> {k \<in> set (a # as). ok k})"
    if "\<not> ok a \<or> a \<in> S"
    using that by (intro firstIndices_cong) auto
  show ?case
  proof (cases "ok a \<and> a \<notin> S")
    case True
    then show ?thesis using Cons.IH [of "i + 1" "insert a S"] e1 by simp
  next
    case False
    then show ?thesis using Cons.IH [of "i + 1" S] e2 by auto
  qed
qed

lemma firstIndices_complete:
  assumes "j < length ks" "ok (ks ! j)" "ks ! j \<notin> set (take j ks)" "ks ! j \<notin> S"
  shows "(ks ! j, i + j) \<in> set (firstIndices ok ks i S)"
proof -
  have ks: "ks = take j ks @ ks ! j # drop (Suc j) ks"
    using assms(1) by (simp add: id_take_nth_drop)
  have "firstIndices ok ks i S =
      firstIndices ok (take j ks) i S
      @ firstIndices ok (ks ! j # drop (Suc j) ks) (i + length (take j ks)) (S \<union> {k \<in> set (take j ks). ok k})"
    using firstIndices_append [of ok "take j ks" "ks ! j # drop (Suc j) ks" i S] ks by simp
  moreover have "length (take j ks) = j" using assms(1) by simp
  ultimately show ?thesis using assms by simp
qed

lemma columnToLetter_bij:
  "bij_betw columnToLetter {n. 0 < n}
     {s. s \<noteq> [] \<and> set s \<subseteq> set ''ABCDEFGHIJKLMNOPQRSTUVWXYZ''}"
proof -
  have nz: "columnToLetter k \<noteq> []" if "0 < k" for k
    using columnToLetter_step [of "(k - 1) mod 26 + 1" "(k - 1) div 26"] decompose [OF that]
    by simp
  have inj: "inj_on columnToLetter {n. 0 < n}"
    by (rule inj_onI) (rule columnToLetter_inj_aux)
  have img: "columnToLetter ` {n. 0 < n}
      = {s. s \<noteq> [] \<and> set s \<subseteq> set ''ABCDEFGHIJKLMNOPQRSTUVWXYZ''}"
  proof (intro set_eqI iffI)
    fix s
    assume "s \<in> columnToLetter ` {n. 0 < n}"
    then obtain n where "0 < n" "s = columnToLetter n" by auto
    then show "s \<in> {s. s \<noteq> [] \<and> set s \<subseteq> set ''ABCDEFGHIJKLMNOPQRSTUVWXYZ''}"
      using nz columnToLetter_letters by simp
  next
    fix s
    assume "s \<in> {s. s \<noteq> [] \<and> set s \<subseteq> set ''ABCDEFGHIJKLMNOPQRSTUVWXYZ''}"
    then have s: "s \<noteq> []" "set s \<subseteq> set ''ABCDEFGHIJKLMNOPQRSTUVWXYZ''" by simp_all
    then obtain n where n: "columnToLetter n = s" using columnToLetter_surj by blast
    with s(1) have "0 < n" using columnToLetter_0 by (cases "n = 0") auto
    with n show "s \<in> columnToLetter ` {n. 0 < n}" by auto
  qed
  show ?thesis unfolding bij_betw_def using inj img by simp
qed

section \<open>Address formatter: bijective base 26\<close>

text \<open>
  Claim C5. For every positive column number, \<open>columnToLetter\<close> is its bijective base-26
  numeral over the letters A to Z: 1 is A, 26 is Z, 27 is AA; the numeral of
  \<open>26 * q + r\<close>, for \<open>r\<close> from 1 to 26, is the numeral of \<open>q\<close> followed by the \<open>r\<close>-th letter,
  the numeral of 0 being empty; and the positive numbers correspond one to one to the
  non-empty words over A to Z.
\<close>

theorem columnToLetter_bijective_base26:
  "columnToLetter 1 = ''A'' \<and> columnToLetter 26 = ''Z'' \<and> columnToLetter 27 = ''AA''
   \<and> columnToLetter 0 = []
   \<and> (1 \<le> r \<and> r \<le> 26 \<longrightarrow> columnToLetter (26 * q + r) = columnToLetter q @ [letter r])
   \<and> bij_betw columnToLetter {n. 0 < n}
        {s. s \<noteq> [] \<and> set s \<subseteq> set ''ABCDEFGHIJKLMNOPQRSTUVWXYZ''}"
proof -
  have a: "columnToLetter 1 = ''A''" by code_simp
  have b: "columnToLetter 26 = ''Z''" by code_simp
  have c: "columnToLetter 27 = ''AA''" by code_simp
  show ?thesis
    using a b c columnToLetter_0 columnToLetter_step [of r q] columnToLetter_bij by simp
qed

theorem columnToLetter_bijective_base26_witness:
  "(1::nat) \<le> 2 \<and> (2::nat) \<le> 26 \<and> columnToLetter (26 * 27 + 2) = ''AAB''
   \<and> columnToLetter 27 = ''AA'' \<and> letter 2 = CHR ''B''"
proof -
  have l: "letter 2 = CHR ''B''" by (simp add: letter_def)
  from columnToLetter_bijective_base26 [of 2 27]
  have "columnToLetter 27 = ''AA''"
    and "columnToLetter (26 * 27 + 2) = columnToLetter 27 @ [letter 2]"
    by simp_all
  with l show ?thesis by simp
qed

section \<open>Value normalizer: the contract\<close>

text \<open>
  Claim C4. \<open>normalizeValue\<close> returns the empty string for \<open>null\<close> and \<open>undefined\<close>; for
  every other value it returns \<open>String(value)\<close> without its leading and trailing white
  space: what it removes on either side is white space only, and what it returns
  neither starts nor ends with white space. The header maps are keyed by the normalized
  header cells, the row maps by the non-empty normalized cells of column 0, and a pair
  of cells yields an edit exactly when their normalized values differ (the column
  mapped from index 0 to index 0 apart).
\<close>

theorem normalizeValue_contract:
  "normalizeValue Null = [] \<and> normalizeValue Undefined = []
   \<and> (v \<noteq> Null \<and> v \<noteq> Undefined \<longrightarrow>
        (\<exists>pre post. toJsString v = pre @ normalizeValue v @ post
            \<and> list_all isWhiteSpace pre \<and> list_all isWhiteSpace post)
        \<and> (normalizeValue v \<noteq> [] \<longrightarrow>
             \<not> isWhiteSpace (hd (normalizeValue v))
             \<and> \<not> isWhiteSpace (last (normalizeValue v))))
   \<and> fst ` set (buildColMap header 0 []) = normalizeValue ` set header
   \<and> fst ` set (buildRowMap rows 0 []) = (\<lambda>r. normalizeValue (cellAt r 0)) ` set rows - {[]}
   \<and> (rowEdits name [(h, (i, j))] prevRow currRow n = []
        \<longleftrightarrow> (i = 0 \<and> j = 0)
            \<or> normalizeValue (cellOrEmpty prevRow i) = normalizeValue (cellOrEmpty currRow j))"
proof -
  have 1: "normalizeValue Null = []" "normalizeValue Undefined = []"
    by (simp_all add: normalizeValue_def)
  have 2: "\<exists>pre post. toJsString v = pre @ normalizeValue v @ post
            \<and> list_all isWhiteSpace pre \<and> list_all isWhiteSpace post"
    if "v \<noteq> Null \<and> v \<noteq> Undefined"
    using that trim_decomp [of "toJsString v"] by (simp add: normalizeValue_def)
  have 3: "\<not> isWhiteSpace (hd (normalizeValue v)) \<and> \<not> isWhiteSpace (last (normalizeValue v))"
    if "v \<noteq> Null \<and> v \<noteq> Undefined" "normalizeValue v \<noteq> []"
    using that trim_ends [of "toJsString v"] by (simp add: normalizeValue_def)
  have 4: "fst ` set (buildColMap header 0 []) = normalizeValue ` set header"
    by (auto simp: buildColMap_firstIndices firstIndices_keys)
  have 5: "fst ` set (buildRowMap rows 0 [])
             = (\<lambda>r. normalizeValue (cellAt r 0)) ` set rows - {[]}"
    by (auto simp: buildRowMap_firstIndices firstIndices_keys)
  have 6: "rowEdits name [(h, (i, j))] prevRow currRow n = []
        \<longleftrightarrow> (i = 0 \<and> j = 0)
            \<or> normalizeValue (cellOrEmpty prevRow i) = normalizeValue (cellOrEmpty currRow j)"
    by (simp add: rowEdits_def Let_def)
  show ?thesis using 1 2 3 4 5 6 by blast
qed

theorem normalizeValue_contract_witness:
  "JStr '' a b  '' \<noteq> Null \<and> JStr '' a b  '' \<noteq> Undefined
   \<and> normalizeValue (JStr '' a b  '') = ''a b''
   \<and> \<not> isWhiteSpace (hd (normalizeValue (JStr '' a b  '')))
   \<and> \<not> isWhiteSpace (last (normalizeValue (JStr '' a b  '')))
   \<and> normalizeValue (JNum ''30'') = ''30''
   \<and> normalizeValue (JBool False) = ''false''"
proof -
  have n: "normalizeValue (JStr '' a b  '') = ''a b''"
    by (simp add: normalizeValue_def trim_def isWhiteSpace_def)
  have m: "normalizeValue (JNum ''30'') = ''30''" "normalizeValue (JBool False) = ''false''"
    by (simp_all add: normalizeValue_def trim_def isWhiteSpace_def)
  from normalizeValue_contract [of "JStr '' a b  ''"] n
  have "\<not> isWhiteSpace (hd (normalizeValue (JStr '' a b  '')))
      \<and> \<not> isWhiteSpace (last (normalizeValue (JStr '' a b  '')))"
    by simp
  with n m show ?thesis by simp
qed

lemma headerOf_Arr: "headerOf (Arr t) = Some (headerRow t)"
  by (simp add: headerRow_def)

lemma dataRowsOf_Arr: "dataRowsOf (Arr t) = Inr (dataRows t)"
  by (simp add: dataRows_def)

lemma slicedRows_Arr: "slicedRows (Arr t) = dataRows t"
  by (simp add: slicedRows_def dataRows_def)

section \<open>Identical tables\<close>

lemma colMap_eq:
  "buildColMap h 0 [] = firstIndices (\<lambda>k. True) (map normalizeValue h) 0 {}"
  by (simp add: buildColMap_firstIndices)

lemma rowMap_eq:
  "buildRowMap rows 0 [] =
     firstIndices (\<lambda>k. k \<noteq> []) (map (\<lambda>r. normalizeValue (cellAt r 0)) rows) 0 {}"
  by (simp add: buildRowMap_firstIndices)

lemma colMap_distinct: "distinct (map fst (buildColMap h 0 []))"
  by (simp add: colMap_eq firstIndices_distinct)

lemma rowMap_distinct: "distinct (map fst (buildRowMap rows 0 []))"
  by (simp add: rowMap_eq firstIndices_distinct)

lemma concat_map_Nil: "(\<And>x. x \<in> set xs \<Longrightarrow> f x = []) \<Longrightarrow> concat (map f xs) = []"
  by (induction xs) simp_all

lemma buildColumnMapping_eq:
  "distinct (map fst pm) \<Longrightarrow> fst ` set pm \<inter> fst ` set m = {} \<Longrightarrow>
   buildColumnMapping pm cm m =
     m @ concat (map (\<lambda>(k, i). case map_of cm k of Some j \<Rightarrow> [(k, (i, j))] | None \<Rightarrow> []) pm)"
proof (induction pm arbitrary: m)
  case Nil
  then show ?case by simp
next
  case (Cons a pm)
  obtain k i where a: "a = (k, i)" by (cases a)
  have fresh: "k \<notin> fst ` set m" using Cons.prems(2) a by auto
  have d: "distinct (map fst pm)" and kpm: "k \<notin> fst ` set pm" using Cons.prems(1) a by auto
  show ?case
  proof (cases "map_of cm k")
    case None
    have "fst ` set pm \<inter> fst ` set m = {}" using Cons.prems(2) by auto
    then show ?thesis using Cons.IH [OF d, of m] None a by simp
  next
    case (Some j)
    have "fst ` set pm \<inter> fst ` set (m @ [(k, (i, j))]) = {}"
      using Cons.prems(2) kpm by auto
    then show ?thesis
      using Cons.IH [OF d, of "m @ [(k, (i, j))]"] Some a update_fresh [OF fresh] by simp
  qed
qed

lemma columnMapping_entries:
  assumes "distinct (map fst pm)"
  shows "(k, (i, j)) \<in> set (buildColumnMapping pm cm []) \<longleftrightarrow>
           (k, i) \<in> set pm \<and> map_of cm k = Some j"
  using buildColumnMapping_eq [OF assms, of "[]" cm]
  by (auto split: option.splits)

lemma rowEdits_Nil:
  assumes "\<And>k i j. (k, (i, j)) \<in> set columnMapping \<Longrightarrow>
            (i = 0 \<and> j = 0)
            \<or> normalizeValue (cellOrEmpty prevRow i) = normalizeValue (cellOrEmpty currRow j)"
  shows "rowEdits name columnMapping prevRow currRow n = []"
  unfolding rowEdits_def
proof (rule concat_map_Nil)
  fix x
  assume x: "x \<in> set columnMapping"
  obtain k i j where "x = (k, (i, j))" by (cases x) auto
  with assms [of k i j] x
  show "(case x of (headerName, prevIdx, currIdx) \<Rightarrow>
          if prevIdx = 0 \<and> currIdx = 0 then []
          else let prevValue = cellOrEmpty prevRow prevIdx;
                   currValue = cellOrEmpty currRow currIdx
               in if normalizeValue prevValue \<noteq> normalizeValue currValue
                  then [editEvent name n currIdx prevValue currValue] else []) = []"
    by (auto simp: Let_def)
qed

lemma columnMapping_same:
  "(k, (i, j)) \<in> set (buildColumnMapping (buildColMap h 0 []) (buildColMap h 0 []) []) \<Longrightarrow> i = j"
  using columnMapping_entries [OF colMap_distinct, of k i j h "buildColMap h 0 []"]
        map_of_is_SomeI [OF colMap_distinct, of k i h]
  by auto

lemma no_fresh_entries:
  "concat (map (\<lambda>(k, i). if \<not> mapHas m k then [f k i] else []) m) = []"
  by (rule concat_map_Nil) (force simp: mapHas_iff)

lemma detectColumnChanges_Arr:
  "detectColumnChanges (Arr p) (Arr c) name =
     Inr (columnEvents (headerRow p) (headerRow c) (Num (max (length p) (length c)))
            (dataRows p) (dataRows c) name)"
  by (simp add: detectColumnChanges_def headerOf_Arr slicedRows_Arr del: headerOf.simps)

lemma detectRowChanges_Arr:
  "detectRowChanges (Arr p) (Arr c) name = Inr (rowEvents (dataRows p) (dataRows c) name)"
  by (simp add: detectRowChanges_def dataRowsOf_Arr del: dataRowsOf.simps)

lemma detectCellEdits_Arr:
  "detectCellEdits (Arr p) (Arr c) name =
     Inr (cellEvents (headerRow p) (headerRow c) (dataRows p) (dataRows c) name)"
  by (simp add: detectCellEdits_def headerOf_Arr dataRowsOf_Arr
      del: headerOf.simps dataRowsOf.simps)

lemma columnEvents_same: "columnEvents h h maxRow rows rows name = []"
  by (simp add: columnEvents_def Let_def no_fresh_entries)

lemma rowEvents_same: "rowEvents rows rows name = []"
  by (simp add: rowEvents_def Let_def no_fresh_entries)

lemma cellEvents_same: "cellEvents h h rows rows name = []"
proof -
  let ?rm = "buildRowMap rows 0 []"
  let ?cm = "buildColumnMapping (buildColMap h 0 []) (buildColMap h 0 []) []"
  have "(case x of (primaryKey, prevRowIdx) \<Rightarrow>
          (case map_of ?rm primaryKey of None \<Rightarrow> []
           | Some currRowIdx \<Rightarrow> rowEdits name ?cm (rows ! prevRowIdx)
                (rows ! currRowIdx) (currRowIdx + 2))) = []" if x: "x \<in> set ?rm" for x
  proof -
    obtain pk i where xi: "x = (pk, i)" by (cases x)
    have m: "map_of ?rm pk = Some i"
      using x xi map_of_is_SomeI [OF rowMap_distinct] by blast
    have "rowEdits name ?cm (rows ! i) (rows ! i) (i + 2) = []"
      by (rule rowEdits_Nil) (use columnMapping_same in blast)
    with m xi show ?thesis by simp
  qed
  then have "concat (map (\<lambda>(primaryKey, prevRowIdx).
          (case map_of ?rm primaryKey of None \<Rightarrow> []
           | Some currRowIdx \<Rightarrow> rowEdits name ?cm (rows ! prevRowIdx)
                (rows ! currRowIdx) (currRowIdx + 2))) ?rm) = []"
    by (rule concat_map_Nil)
  then show ?thesis by (simp add: cellEvents_def Let_def)
qed

lemma sheetChanges_Arr:
  "sheetChanges (Arr p) (Arr c) name =
     Inr (columnEvents (headerRow p) (headerRow c) (Num (max (length p) (length c)))
            (dataRows p) (dataRows c) name
          @ rowEvents (dataRows p) (dataRows c) name
          @ cellEvents (headerRow p) (headerRow c) (dataRows p) (dataRows c) name)"
  by (simp add: sheetChanges_def detectColumnChanges_Arr detectRowChanges_Arr
      detectCellEdits_Arr)

lemma sheetChanges_same: "sheetChanges (Arr t) (Arr t) name = Inr []"
  by (simp add: sheetChanges_Arr columnEvents_same rowEvents_same cellEvents_same)

lemma lookupSheet_own: "map_of data name = Some t \<Longrightarrow> lookupSheet data name = Arr t"
  by (simp add: lookupSheet_def)

lemma sheetResult_same:
  assumes "lookupSheet p name = Arr t" "lookupSheet c name = Arr t"
  shows "sheetResult p c name = Inr []"
  using assms by (simp add: sheetResult_def Let_def sheetChanges_same)

lemma detectLoop_step:
  "detectLoop p c (name # names) changes =
     (case sheetResult p c name of
        Inl e \<Rightarrow> Inl e
      | Inr found \<Rightarrow> detectLoop p c names (changes @ found))"
  by (simp add: sheetResult_def Let_def)

lemma detectLoop_ok:
  "(\<And>n. n \<in> set names \<Longrightarrow> \<exists>es. sheetResult p c n = Inr es) \<Longrightarrow>
   detectLoop p c names acc = Inr (acc @ concat (map (sheetEvents p c) names))"
proof (induction names arbitrary: acc)
  case Nil
  then show ?case by simp
next
  case (Cons n names)
  obtain es where es: "sheetResult p c n = Inr es" using Cons.prems by auto
  have "detectLoop p c names (acc @ es) = Inr ((acc @ es) @ concat (map (sheetEvents p c) names))"
    using Cons.prems by (intro Cons.IH) simp
  moreover have "sheetEvents p c n = es" by (simp add: sheetEvents_def es)
  ultimately show ?case using es by (simp add: detectLoop_step del: detectLoop.simps)
qed

lemma detectLoop_Inr:
  "detectLoop p c names acc = Inr es \<Longrightarrow>
     es = acc @ concat (map (sheetEvents p c) names)
     \<and> list_all (\<lambda>n. sheetResult p c n \<noteq> Inl TypeError) names"
proof (induction names arbitrary: acc)
  case Nil
  then show ?case by simp
next
  case (Cons n names)
  show ?case
  proof (cases "sheetResult p c n")
    case (Inl e)
    with Cons.prems show ?thesis by (simp add: detectLoop_step del: detectLoop.simps)
  next
    case (Inr found)
    with Cons.prems have "detectLoop p c names (acc @ found) = Inr es"
      by (simp add: detectLoop_step del: detectLoop.simps)
    from Cons.IH [OF this] Inr show ?thesis by (simp add: sheetEvents_def)
  qed
qed

lemma foldl_setAdd_set: "set (foldl setAdd s xs) = set s \<union> set xs"
  by (induction xs arbitrary: s) (auto simp: setAdd_def)

lemma allSheetNames_set: "set (allSheetNames p c) = fst ` set p \<union> fst ` set c"
  by (simp add: allSheetNames_def foldl_setAdd_set)

text \<open>
  Claim C1. For every snapshot \<open>A\<close>, \<open>detectChanges(A, A)\<close> returns the empty list: no
  event of any kind, for any sheet.
\<close>

theorem detectChanges_idempotent: "detectChanges A A = Inr []"
proof -
  have r: "sheetResult A A n = Inr []" if "n \<in> set (allSheetNames A A)" for n
  proof -
    from that have "n \<in> fst ` set A" by (simp add: allSheetNames_set)
    then obtain t where "map_of A n = Some t"
      by (metis domD dom_map_of_conv_image_fst)
    then have "lookupSheet A n = Arr t" by (simp add: lookupSheet_def)
    then show ?thesis by (simp add: sheetResult_same)
  qed
  then have "detectLoop A A (allSheetNames A A) []
      = Inr ([] @ concat (map (sheetEvents A A) (allSheetNames A A)))"
    by (intro detectLoop_ok) blast
  moreover have "concat (map (sheetEvents A A) (allSheetNames A A)) = []"
    by (rule concat_map_Nil) (simp add: sheetEvents_def r)
  ultimately show ?thesis by (simp add: detectChanges_def)
qed

theorem detectChanges_idempotent_witness:
  "detectChanges
     [(''Sheet1'', [[JStr ''Name'', JStr ''Age''], [JStr ''alice'', JStr ''30''], [JStr '' '', JNum ''0'']])]
     [(''Sheet1'', [[JStr ''Name'', JStr ''Age''], [JStr ''alice'', JStr ''30''], [JStr '' '', JNum ''0'']])]
   = Inr []"
  by (rule detectChanges_idempotent)

section \<open>Emission order\<close>

lemma concat_map_if:
  "concat (map (\<lambda>x. if P x then [f x] else []) xs) = map f (filter P xs)"
  by (induction xs) simp_all

lemma list_all_concat_map:
  "(\<And>x. x \<in> set xs \<Longrightarrow> list_all P (f x)) \<Longrightarrow> list_all P (concat (map f xs))"
  by (induction xs) simp_all

lemma headerOf_dataRowsOf: "headerOf t = Some h \<Longrightarrow> \<exists>rows. dataRowsOf t = Inr rows"
  by (cases t) (simp_all split: if_splits)

lemma columnEvents_kinds:
  "list_all (\<lambda>e. sheetName e = name \<and> isColumnEvent e)
     (columnEvents ph ch maxRow pr cr name)"
  unfolding columnEvents_def Let_def list_all_append
  by (intro conjI list_all_concat_map)
     (auto simp: insertColumnEvent_def removeColumnEvent_def isColumnEvent_def)

lemma rowEvents_kinds:
  "list_all (\<lambda>e. sheetName e = name \<and> isRowEvent e) (rowEvents pr cr name)"
  unfolding rowEvents_def Let_def list_all_append
  by (intro conjI list_all_concat_map)
     (auto simp: insertRowEvent_def removeRowEvent_def isRowEvent_def)

lemma rowEdits_kinds:
  "list_all (\<lambda>e. sheetName e = name \<and> isEditEvent e) (rowEdits name cm p c n)"
  unfolding rowEdits_def
  by (intro list_all_concat_map) (auto simp: editEvent_def isEditEvent_def Let_def)

lemma cellEvents_kinds:
  "list_all (\<lambda>e. sheetName e = name \<and> isEditEvent e) (cellEvents ph ch pr cr name)"
  unfolding cellEvents_def Let_def
  by (intro list_all_concat_map) (auto simp: rowEdits_kinds split: option.splits)

lemma detectColumnChanges_kinds:
  "detectColumnChanges previous current name = Inr es \<Longrightarrow>
     list_all (\<lambda>e. sheetName e = name \<and> isColumnEvent e) es"
  using columnEvents_kinds by (auto simp: detectColumnChanges_def split: option.splits)

lemma detectRowChanges_kinds:
  "detectRowChanges previous current name = Inr es \<Longrightarrow>
     list_all (\<lambda>e. sheetName e = name \<and> isRowEvent e) es"
  using rowEvents_kinds by (auto simp: detectRowChanges_def split: sum.splits)

lemma detectCellEdits_kinds:
  "detectCellEdits previous current name = Inr es \<Longrightarrow>
     list_all (\<lambda>e. sheetName e = name \<and> isEditEvent e) es"
  using cellEvents_kinds by (auto simp: detectCellEdits_def split: sum.splits option.splits)

lemma sheetChanges_blocks:
  assumes "sheetChanges previous current name = Inr es"
  shows "\<exists>cs rs ed. es = cs @ rs @ ed
          \<and> list_all (\<lambda>e. sheetName e = name \<and> isColumnEvent e) cs
          \<and> list_all (\<lambda>e. sheetName e = name \<and> isRowEvent e) rs
          \<and> list_all (\<lambda>e. sheetName e = name \<and> isEditEvent e) ed"
proof (cases "detectColumnChanges previous current name")
  case (Inl e)
  with assms show ?thesis by (simp add: sheetChanges_def)
next
  case cs: (Inr cs)
  show ?thesis
  proof (cases "detectRowChanges previous current name")
    case (Inl e)
    with assms cs show ?thesis by (simp add: sheetChanges_def)
  next
    case rs: (Inr rs)
    show ?thesis
    proof (cases "detectCellEdits previous current name")
      case (Inl e)
      with assms cs rs show ?thesis by (simp add: sheetChanges_def)
    next
      case ed: (Inr ed)
      have "es = cs @ rs @ ed" using assms cs rs ed by (simp add: sheetChanges_def)
      moreover note detectColumnChanges_kinds [OF cs] detectRowChanges_kinds [OF rs]
        detectCellEdits_kinds [OF ed]
      ultimately show ?thesis by (intro exI conjI)
    qed
  qed
qed

lemma no_events_blocks:
  "\<exists>cs rs ed. [] = cs @ rs @ ed
          \<and> list_all (\<lambda>e. sheetName e = name \<and> isColumnEvent e) cs
          \<and> list_all (\<lambda>e. sheetName e = name \<and> isRowEvent e) rs
          \<and> list_all (\<lambda>e. sheetName e = name \<and> isEditEvent e) ed"
proof (intro exI conjI)
  show "[] = [] @ [] @ []" by simp
qed simp_all

lemma sheetEvents_blocks:
  "\<exists>cs rs ed. sheetEvents p c name = cs @ rs @ ed
          \<and> list_all (\<lambda>e. sheetName e = name \<and> isColumnEvent e) cs
          \<and> list_all (\<lambda>e. sheetName e = name \<and> isRowEvent e) rs
          \<and> list_all (\<lambda>e. sheetName e = name \<and> isEditEvent e) ed"
proof (cases "sheetResult p c name")
  case (Inl e)
  then have "sheetEvents p c name = []" by (simp add: sheetEvents_def)
  then show ?thesis using no_events_blocks [of name] by simp
next
  case (Inr es)
  then have e: "sheetEvents p c name = es" by (simp add: sheetEvents_def)
  show ?thesis
  proof (cases "tblLength (lookupSheet p name) = Some 0 \<and> tblLength (lookupSheet c name) = Some 0")
    case True
    with Inr have "es = []" by (simp add: sheetResult_def Let_def)
    then show ?thesis unfolding e using no_events_blocks [of name] by simp
  next
    case False
    with Inr have "sheetChanges (lookupSheet p name) (lookupSheet c name) name = Inr es"
      by (simp add: sheetResult_def Let_def)
    then show ?thesis unfolding e by (rule sheetChanges_blocks)
  qed
qed

lemma foldl_setAdd_distinct: "distinct s \<Longrightarrow> distinct (foldl setAdd s xs)"
  by (induction xs arbitrary: s) (auto simp: setAdd_def)

lemma foldl_setAdd_filter:
  "distinct xs \<Longrightarrow> foldl setAdd s xs = s @ filter (\<lambda>x. x \<notin> set s) xs"
proof (induction xs arbitrary: s)
  case Nil
  then show ?case by simp
next
  case (Cons x xs)
  have d: "distinct xs" and nx: "x \<notin> set xs" using Cons.prems by simp_all
  show ?case
  proof (cases "x \<in> set s")
    case True
    then show ?thesis using Cons.IH [OF d, of s] by (simp add: setAdd_def)
  next
    case False
    have "filter (\<lambda>y. y \<notin> set (s @ [x])) xs = filter (\<lambda>y. y \<notin> set s) xs"
      using nx by (intro filter_cong) auto
    then show ?thesis using False Cons.IH [OF d, of "s @ [x]"] by (simp add: setAdd_def)
  qed
qed

lemma allSheetNames_distinct: "distinct (allSheetNames p c)"
  by (simp add: allSheetNames_def foldl_setAdd_distinct)

lemma allSheetNames_union:
  assumes "distinct (map fst p)" "distinct (map fst c)"
  shows "allSheetNames p c = map fst p @ filter (\<lambda>n. n \<notin> fst ` set p) (map fst c)"
proof -
  have "foldl setAdd [] (map fst p) = map fst p"
    using foldl_setAdd_filter [OF assms(1), of "[]"] by simp
  then show ?thesis
    using foldl_setAdd_filter [OF assms(2), of "map fst p"]
    by (simp add: allSheetNames_def)
qed

text \<open>
  Claim C9. The events \<open>detectChanges\<close> returns are the concatenation, over the sheet
  names in the insertion order of the set built from the keys of the previous and then
  the current snapshot, of what each sheet contributes; a sheet contributes its column
  events, then its row events, then its edits, all under its own name. The names are
  pairwise distinct, so events of different sheets are not interleaved.
\<close>

theorem detectChanges_emission_order:
  assumes "detectChanges previousData currentData = Inr es"
  shows "es = concat (map (sheetEvents previousData currentData)
                 (allSheetNames previousData currentData))
    \<and> (\<forall>name. \<exists>cs rs ed.
          sheetEvents previousData currentData name = cs @ rs @ ed
          \<and> list_all (\<lambda>e. sheetName e = name \<and> isColumnEvent e) cs
          \<and> list_all (\<lambda>e. sheetName e = name \<and> isRowEvent e) rs
          \<and> list_all (\<lambda>e. sheetName e = name \<and> isEditEvent e) ed)
    \<and> distinct (allSheetNames previousData currentData)
    \<and> set (allSheetNames previousData currentData)
         = fst ` set previousData \<union> fst ` set currentData
    \<and> (distinct (map fst previousData) \<and> distinct (map fst currentData) \<longrightarrow>
         allSheetNames previousData currentData
           = map fst previousData
             @ filter (\<lambda>n. n \<notin> fst ` set previousData) (map fst currentData))"
proof -
  have "es = concat (map (sheetEvents previousData currentData)
                 (allSheetNames previousData currentData))"
    using assms detectLoop_Inr [of previousData currentData _ "[]" es]
    by (simp add: detectChanges_def)
  then show ?thesis
    using sheetEvents_blocks allSheetNames_distinct allSheetNames_set allSheetNames_union
    by blast
qed

theorem detectChanges_emission_order_witness:
  "detectChanges
     [(''A'', [[JStr ''id'', JStr ''x'', JStr ''y''], [JStr ''1'', JStr ''p'', JStr ''u''],
               [JStr ''2'', JStr ''q'', JStr ''v'']]),
      (''B'', [[JStr ''k'']])]
     [(''B'', [[JStr ''k''], [JStr ''new'']]),
      (''A'', [[JStr ''id'', JStr ''x'', JStr ''z''], [JStr ''1'', JStr ''p2'', JStr ''w''],
               [JStr ''3'', JStr ''q'', JStr ''v'']])]
   = Inr [insertColumnEvent ''A'' 2 (Num 3) [[JStr ''w''], [JStr ''v'']],
          removeColumnEvent ''A'' 2 (Num 3) [[JStr ''u''], [JStr ''v'']],
          insertRowEvent ''A'' 3 3 [JStr ''3'', JStr ''q'', JStr ''v''],
          removeRowEvent ''A'' 3 3 [JStr ''2'', JStr ''q'', JStr ''v''],
          editEvent ''A'' 2 1 (JStr ''p'') (JStr ''p2''),
          insertRowEvent ''B'' 2 1 [JStr ''new'']]
   \<and> allSheetNames
     [(''A'', [[JStr ''id'', JStr ''x'', JStr ''y''], [JStr ''1'', JStr ''p'', JStr ''u''],
               [JStr ''2'', JStr ''q'', JStr ''v'']]),
      (''B'', [[JStr ''k'']])]
     [(''B'', [[JStr ''k''], [JStr ''new'']]),
      (''A'', [[JStr ''id'', JStr ''x'', JStr ''z''], [JStr ''1'', JStr ''p2'', JStr ''w''],
               [JStr ''3'', JStr ''q'', JStr ''v'']])]
   = [''A'', ''B'']"
proof -
  let ?p = "[(''A'', [[JStr ''id'', JStr ''x'', JStr ''y''], [JStr ''1'', JStr ''p'', JStr ''u''],
               [JStr ''2'', JStr ''q'', JStr ''v'']]),
      (''B'', [[JStr ''k'']])]"
  let ?c = "[(''B'', [[JStr ''k''], [JStr ''new'']]),
      (''A'', [[JStr ''id'', JStr ''x'', JStr ''z''], [JStr ''1'', JStr ''p2'', JStr ''w''],
               [JStr ''3'', JStr ''q'', JStr ''v'']])]"
  let ?es = "[insertColumnEvent ''A'' 2 (Num 3) [[JStr ''w''], [JStr ''v'']],
          removeColumnEvent ''A'' 2 (Num 3) [[JStr ''u''], [JStr ''v'']],
          insertRowEvent ''A'' 3 3 [JStr ''3'', JStr ''q'', JStr ''v''],
          removeRowEvent ''A'' 3 3 [JStr ''2'', JStr ''q'', JStr ''v''],
          editEvent ''A'' 2 1 (JStr ''p'') (JStr ''p2''),
          insertRowEvent ''B'' 2 1 [JStr ''new'']]"
  have ev: "detectChanges ?p ?c = Inr ?es" by code_simp
  have d: "distinct (map fst ?p) \<and> distinct (map fst ?c)" by simp
  from detectChanges_emission_order [OF ev] d
  have "allSheetNames ?p ?c = map fst ?p @ filter (\<lambda>n. n \<notin> fst ` set ?p) (map fst ?c)"
    by blast
  then have "allSheetNames ?p ?c = [''A'', ''B'']" by simp
  with ev show ?thesis by simp
qed

section \<open>When the differ throws\<close>

lemma error_is_TypeError: "(e :: error) = TypeError"
  by (cases e)

lemma headerOf_None: "headerOf t = None \<longleftrightarrow> (\<exists>k. t = Fn (Suc k))"
  by (cases t) (auto simp: gr0_conv_Suc)

lemma sheetChanges_throws_iff:
  "sheetChanges previous current name = Inl TypeError
     \<longleftrightarrow> headerOf previous = None \<or> headerOf current = None"
proof (cases "headerOf previous = None \<or> headerOf current = None")
  case True
  then have "detectColumnChanges previous current name = Inl TypeError"
    by (auto simp: detectColumnChanges_def split: option.splits)
  with True show ?thesis by (simp add: sheetChanges_def)
next
  case False
  then obtain ph ch where h: "headerOf previous = Some ph" "headerOf current = Some ch"
    by auto
  from headerOf_dataRowsOf [OF h(1)] headerOf_dataRowsOf [OF h(2)]
  obtain pr cr where r: "dataRowsOf previous = Inr pr" "dataRowsOf current = Inr cr"
    by auto
  have "sheetChanges previous current name \<noteq> Inl TypeError"
    by (simp add: sheetChanges_def detectColumnChanges_def detectRowChanges_def
        detectCellEdits_def h r)
  with False show ?thesis by simp
qed

lemma sheetResult_throws_iff:
  "sheetResult p c name = Inl TypeError
     \<longleftrightarrow> headerOf (lookupSheet p name) = None \<or> headerOf (lookupSheet c name) = None"
proof (cases "tblLength (lookupSheet p name) = Some 0 \<and> tblLength (lookupSheet c name) = Some 0")
  case True
  then have "headerOf (lookupSheet p name) \<noteq> None \<and> headerOf (lookupSheet c name) \<noteq> None"
    by (cases "lookupSheet p name"; cases "lookupSheet c name") simp_all
  with True show ?thesis by (simp add: sheetResult_def Let_def)
next
  case False
  then have "sheetResult p c name
      = sheetChanges (lookupSheet p name) (lookupSheet c name) name"
    by (auto simp: sheetResult_def Let_def)
  then show ?thesis by (simp add: sheetChanges_throws_iff)
qed

lemma detectLoop_throws_iff:
  "detectLoop p c names acc = Inl TypeError
     \<longleftrightarrow> (\<exists>n \<in> set names. sheetResult p c n = Inl TypeError)"
proof (induction names arbitrary: acc)
  case Nil
  then show ?case by simp
next
  case (Cons n names)
  show ?case
  proof (cases "sheetResult p c n")
    case (Inl e)
    then show ?thesis using error_is_TypeError [of e]
      by (simp add: detectLoop_step del: detectLoop.simps)
  next
    case (Inr found)
    then show ?thesis using Cons.IH [of "acc @ found"]
      by (simp add: detectLoop_step del: detectLoop.simps)
  qed
qed

lemma lookupSheet_header_None:
  "headerOf (lookupSheet d n) = None
     \<longleftrightarrow> n \<notin> fst ` set d \<and> (\<exists>k. objectPrototype n = Some (Fn (Suc k)))"
proof (cases "map_of d n")
  case None
  then have n: "n \<notin> fst ` set d" by (simp add: map_of_eq_None_iff)
  show ?thesis
  proof (cases "objectPrototype n")
    case None
    with \<open>map_of d n = None\<close> show ?thesis by (simp add: lookupSheet_def)
  next
    case (Some v)
    with \<open>map_of d n = None\<close> n show ?thesis
      by (simp add: lookupSheet_def headerOf_None)
  qed
next
  case (Some t)
  then have "n \<in> fst ` set d" by (metis map_of_eq_None_iff option.distinct(1))
  with Some show ?thesis by (simp add: lookupSheet_def)
qed

text \<open>
  \<open>detectChanges\<close> throws exactly when a sheet that only one snapshot holds bears the name
  of a method of \<open>Object.prototype\<close> that declares a parameter.
\<close>

lemma detectChanges_throws_iff:
  "detectChanges previousData currentData = Inl TypeError
     \<longleftrightarrow> (\<exists>n \<in> fst ` set previousData \<union> fst ` set currentData.
            (n \<notin> fst ` set previousData \<or> n \<notin> fst ` set currentData)
            \<and> (\<exists>k. objectPrototype n = Some (Fn (Suc k))))"
  unfolding detectChanges_def detectLoop_throws_iff sheetResult_throws_iff
    lookupSheet_header_None allSheetNames_set
  by blast

lemma inherited_names:
  "(\<exists>k. objectPrototype n = Some (Fn (Suc k)))
     \<longleftrightarrow> n \<in> set [''constructor'', ''hasOwnProperty'', ''isPrototypeOf'',
                   ''propertyIsEnumerable'', ''__defineGetter__'', ''__defineSetter__'',
                   ''__lookupGetter__'', ''__lookupSetter__'']"
  by (simp add: objectPrototype_def)

text \<open>
  Claim C3 says that \<open>detectChanges\<close> never raises, a sheet that only one snapshot holds
  being read as an empty table. It does not hold: for a sheet named \<open>constructor\<close> that
  the current snapshot lacks, \<open>currentData[sheetName] || []\<close> is the inherited function
  \<open>Object\<close>, whose \<open>length\<close> is 1 and whose element 0 is \<open>undefined\<close>, and \<open>forEach\<close> on
  that header throws a \<open>TypeError\<close>.
\<close>

theorem detectChanges_throws_on_inherited_name:
  "detectChanges [(''constructor'', [[JStr ''id'']])] [] = Inl TypeError
   \<and> lookupSheet [] ''constructor'' = Fn 1
   \<and> headerOf (Fn 1) = None"
  by code_simp

section \<open>What the matchers emit\<close>

lemma concat_map_if_pair:
  "concat (map (\<lambda>(k, i). if P k then [f k i] else []) xs)
     = map (\<lambda>(k, i). f k i) (filter (\<lambda>(k, i). P k) xs)"
  by (induction xs) auto



lemma colMap_sound:
  "(k, i) \<in> set (buildColMap h 0 []) \<Longrightarrow> i < length h \<and> normalizeValue (h ! i) = k"
  using firstIndices_sound [of k i "\<lambda>k. True" "map normalizeValue h" 0 "{}"]
  by (auto simp: colMap_eq)

lemma rowMap_sound:
  "(k, i) \<in> set (buildRowMap rows 0 []) \<Longrightarrow>
     i < length rows \<and> normalizeValue (cellAt (rows ! i) 0) = k \<and> k \<noteq> []"
  using firstIndices_sound [of k i "\<lambda>k. k \<noteq> []" "map (\<lambda>r. normalizeValue (cellAt r 0)) rows" 0 "{}"]
  by (auto simp: rowMap_eq)

lemma colMap_complete:
  assumes "i < length h" "\<forall>j<i. normalizeValue (h ! j) \<noteq> normalizeValue (h ! i)"
  shows "(normalizeValue (h ! i), i) \<in> set (buildColMap h 0 [])"
proof -
  have "map normalizeValue h ! i \<notin> set (take i (map normalizeValue h))"
    using assms by (auto simp: in_set_conv_nth)
  then show ?thesis
    using firstIndices_complete [of i "map normalizeValue h" "\<lambda>k. True" "{}" 0] assms(1)
    by (simp add: colMap_eq)
qed

lemma rowMap_complete:
  assumes "i < length rows" "normalizeValue (cellAt (rows ! i) 0) \<noteq> []"
    "\<forall>j<i. normalizeValue (cellAt (rows ! j) 0) \<noteq> normalizeValue (cellAt (rows ! i) 0)"
  shows "(normalizeValue (cellAt (rows ! i) 0), i) \<in> set (buildRowMap rows 0 [])"
proof -
  let ?ks = "map (\<lambda>r. normalizeValue (cellAt r 0)) rows"
  have "?ks ! i \<notin> set (take i ?ks)"
    using assms by (auto simp: in_set_conv_nth)
  then show ?thesis
    using firstIndices_complete [of i ?ks "\<lambda>k. k \<noteq> []" "{}" 0] assms(1,2)
    by (simp add: rowMap_eq)
qed


lemma rowEvents_eq:
  "rowEvents pr cr name =
     map (\<lambda>(k, i). insertRowEvent name (i + 2) (maxCol pr cr (cr ! i)) (cr ! i))
       (filter (\<lambda>(k, i). k \<notin> fst ` set (buildRowMap pr 0 [])) (buildRowMap cr 0 []))
     @ map (\<lambda>(k, i). removeRowEvent name (i + 2) (maxCol pr cr (pr ! i)) (pr ! i))
       (filter (\<lambda>(k, i). k \<notin> fst ` set (buildRowMap cr 0 [])) (buildRowMap pr 0 []))"
  by (simp add: rowEvents_def Let_def mapHas_iff concat_map_if_pair)

lemma columnValues_truthy:
  "columnValues rows idx = map (\<lambda>v. [v]) (filter truthy (map (\<lambda>r. cellAt r idx) rows))"
proof -
  have t: "truthy v \<Longrightarrow> v \<noteq> JStr []" for v by (cases v) auto
  show ?thesis unfolding columnValues_def
    by (induction rows) (auto simp: t)
qed

lemma columnValues_strings:
  assumes "\<forall>r \<in> set rows. cellAt r idx = Undefined \<or> (\<exists>s. cellAt r idx = JStr s)"
  shows "columnValues rows idx
     = map (\<lambda>v. [v]) (filter (\<lambda>v. v \<noteq> JStr [] \<and> v \<noteq> Undefined) (map (\<lambda>r. cellAt r idx) rows))"
proof -
  have "filter truthy (map (\<lambda>r. cellAt r idx) rows)
      = filter (\<lambda>v. v \<noteq> JStr [] \<and> v \<noteq> Undefined) (map (\<lambda>r. cellAt r idx) rows)"
    using assms by (intro filter_cong) auto
  then show ?thesis by (simp add: columnValues_truthy)
qed

section \<open>Rows with an empty primary key\<close>

lemma insertRow_in_rowEvents:
  assumes "e \<in> set (rowEvents pr cr name)" "changeType e = INSERT_ROW"
  shows "\<exists>k i. (k, i) \<in> set (buildRowMap cr 0 []) \<and> rowIndex e = Some (i + 2)"
proof -
  from assms(1) consider
    (ins) k i where "(k, i) \<in> set (buildRowMap cr 0 [])"
      "e = insertRowEvent name (i + 2) (maxCol pr cr (cr ! i)) (cr ! i)"
    | (rem) i where "e = removeRowEvent name (i + 2) (maxCol pr cr (pr ! i)) (pr ! i)"
    unfolding rowEvents_eq by auto
  then show ?thesis
  proof cases
    case ins
    then show ?thesis by (auto simp: insertRowEvent_def)
  next
    case rem
    with assms(2) show ?thesis by (simp add: removeRowEvent_def)
  qed
qed

lemma removeRow_in_rowEvents:
  assumes "e \<in> set (rowEvents pr cr name)" "changeType e = REMOVE_ROW"
  shows "\<exists>k i. (k, i) \<in> set (buildRowMap pr 0 []) \<and> rowIndex e = Some (i + 2)"
proof -
  from assms(1) consider
    (ins) i where "e = insertRowEvent name (i + 2) (maxCol pr cr (cr ! i)) (cr ! i)"
    | (rem) k i where "(k, i) \<in> set (buildRowMap pr 0 [])"
      "e = removeRowEvent name (i + 2) (maxCol pr cr (pr ! i)) (pr ! i)"
    unfolding rowEvents_eq by auto
  then show ?thesis
  proof cases
    case ins
    with assms(2) show ?thesis by (simp add: insertRowEvent_def)
  next
    case rem
    then show ?thesis by (auto simp: removeRowEvent_def)
  qed
qed

lemma insertRow_key:
  assumes "e \<in> set (rowEvents pr cr name)" "changeType e = INSERT_ROW"
    "rowIndex e = Some (i + 2)"
  shows "i < length cr \<and> normalizeValue (cellAt (cr ! i) 0) \<noteq> []"
proof -
  from insertRow_in_rowEvents [OF assms(1,2)] assms(3)
  obtain k where "(k, i) \<in> set (buildRowMap cr 0 [])" by auto
  from rowMap_sound [OF this] show ?thesis by auto
qed

lemma removeRow_key:
  assumes "e \<in> set (rowEvents pr cr name)" "changeType e = REMOVE_ROW"
    "rowIndex e = Some (i + 2)"
  shows "i < length pr \<and> normalizeValue (cellAt (pr ! i) 0) \<noteq> []"
proof -
  from removeRow_in_rowEvents [OF assms(1,2)] assms(3)
  obtain k where "(k, i) \<in> set (buildRowMap pr 0 [])" by auto
  from rowMap_sound [OF this] show ?thesis by auto
qed

lemma sheetChanges_row_event_source:
  assumes "sheetChanges previous current name = Inr es" "e \<in> set es" "isRowEvent e"
  shows "\<exists>pr cr. dataRowsOf previous = Inr pr \<and> dataRowsOf current = Inr cr
           \<and> e \<in> set (rowEvents pr cr name)"
proof (cases "detectColumnChanges previous current name")
  case (Inl x)
  with assms(1) show ?thesis by (simp add: sheetChanges_def)
next
  case cs: (Inr cs)
  show ?thesis
  proof (cases "detectRowChanges previous current name")
    case (Inl x)
    with assms(1) cs show ?thesis by (simp add: sheetChanges_def)
  next
    case rs: (Inr rs)
    show ?thesis
    proof (cases "detectCellEdits previous current name")
      case (Inl x)
      with assms(1) cs rs show ?thesis by (simp add: sheetChanges_def)
    next
      case ed: (Inr ed)
      have es: "es = cs @ rs @ ed" using assms(1) cs rs ed by (simp add: sheetChanges_def)
      have "e \<notin> set cs"
        using detectColumnChanges_kinds [OF cs] assms(3)
        by (auto simp: list_all_iff isColumnEvent_def isRowEvent_def)
      moreover have "e \<notin> set ed"
        using detectCellEdits_kinds [OF ed] assms(3)
        by (auto simp: list_all_iff isEditEvent_def isRowEvent_def)
      ultimately have e: "e \<in> set rs" using assms(2) es by simp
      from rs obtain pr cr where
        "dataRowsOf previous = Inr pr" "dataRowsOf current = Inr cr"
        "rs = rowEvents pr cr name"
        by (auto simp: detectRowChanges_def split: sum.splits)
      with e show ?thesis by blast
    qed
  qed
qed

lemma detectChanges_event_source:
  assumes "detectChanges p c = Inr es" "e \<in> set es"
  shows "\<exists>found. sheetChanges (lookupSheet p (sheetName e)) (lookupSheet c (sheetName e))
                   (sheetName e) = Inr found \<and> e \<in> set found"
proof -
  have "es = concat (map (sheetEvents p c) (allSheetNames p c))"
    using assms(1) detectLoop_Inr [of p c _ "[]" es] by (simp add: detectChanges_def)
  with assms(2) obtain n where n: "e \<in> set (sheetEvents p c n)" by auto
  from sheetEvents_blocks [of p c n] n have "sheetName e = n"
    by (auto simp: list_all_iff)
  with n have e: "e \<in> set (sheetEvents p c (sheetName e))" by simp
  let ?n = "sheetName e"
  from e obtain found where f: "sheetResult p c ?n = Inr found" "e \<in> set found"
    by (cases "sheetResult p c ?n") (auto simp: sheetEvents_def)
  then have "sheetChanges (lookupSheet p ?n) (lookupSheet c ?n) ?n = Inr found"
    by (auto simp: sheetResult_def Let_def split: if_splits)
  with f(2) show ?thesis by blast
qed

text \<open>
  Every row event comes from an entry of a key map, and the guard \<open>primaryKey &&\<close> keeps
  a row whose key normalizes to the empty string out of both maps. So in whatever
  \<open>detectChanges\<close> returns, no \<open>INSERT_ROW\<close> event of a sheet points at a current data
  row of that sheet with such a key, and no \<open>REMOVE_ROW\<close> event at such a previous data
  row.
\<close>

lemma empty_key_rows_never_reported:
  assumes "detectChanges previousData currentData = Inr es"
  shows "(map_of currentData name = Some current \<and> i < length (dataRows current)
            \<and> normalizeValue (cellAt (dataRows current ! i) 0) = []
          \<longrightarrow> \<not> (\<exists>e \<in> set es. sheetName e = name \<and> changeType e = INSERT_ROW
                               \<and> rowIndex e = Some (i + 2)))
       \<and> (map_of previousData name = Some previous \<and> i < length (dataRows previous)
            \<and> normalizeValue (cellAt (dataRows previous ! i) 0) = []
          \<longrightarrow> \<not> (\<exists>e \<in> set es. sheetName e = name \<and> changeType e = REMOVE_ROW
                               \<and> rowIndex e = Some (i + 2)))"
proof -
  have src: "\<exists>pr cr. dataRowsOf (lookupSheet previousData name) = Inr pr
               \<and> dataRowsOf (lookupSheet currentData name) = Inr cr
               \<and> e \<in> set (rowEvents pr cr name)"
    if "e \<in> set es" "sheetName e = name" "isRowEvent e" for e
    using detectChanges_event_source [OF assms that(1)] sheetChanges_row_event_source that(2,3)
    by blast
  have 1: "\<not> (\<exists>e \<in> set es. sheetName e = name \<and> changeType e = INSERT_ROW
                               \<and> rowIndex e = Some (i + 2))"
    if t: "map_of currentData name = Some current"
      and k: "normalizeValue (cellAt (dataRows current ! i) 0) = []"
  proof
    assume "\<exists>e \<in> set es. sheetName e = name \<and> changeType e = INSERT_ROW
                               \<and> rowIndex e = Some (i + 2)"
    then obtain e where e: "e \<in> set es" "sheetName e = name" "changeType e = INSERT_ROW"
      "rowIndex e = Some (i + 2)" by blast
    from src [OF e(1,2)] e(3) obtain pr cr where
      r: "dataRowsOf (lookupSheet currentData name) = Inr cr" "e \<in> set (rowEvents pr cr name)"
      by (auto simp: isRowEvent_def)
    from r(1) t have "cr = dataRows current"
      by (simp add: lookupSheet_def dataRowsOf_Arr del: dataRowsOf.simps)
    with insertRow_key [OF r(2) e(3,4)] k show False by simp
  qed
  have 2: "\<not> (\<exists>e \<in> set es. sheetName e = name \<and> changeType e = REMOVE_ROW
                               \<and> rowIndex e = Some (i + 2))"
    if t: "map_of previousData name = Some previous"
      and k: "normalizeValue (cellAt (dataRows previous ! i) 0) = []"
  proof
    assume "\<exists>e \<in> set es. sheetName e = name \<and> changeType e = REMOVE_ROW
                               \<and> rowIndex e = Some (i + 2)"
    then obtain e where e: "e \<in> set es" "sheetName e = name" "changeType e = REMOVE_ROW"
      "rowIndex e = Some (i + 2)" by blast
    from src [OF e(1,2)] e(3) obtain pr cr where
      r: "dataRowsOf (lookupSheet previousData name) = Inr pr" "e \<in> set (rowEvents pr cr name)"
      by (auto simp: isRowEvent_def)
    from r(1) t have "pr = dataRows previous"
      by (simp add: lookupSheet_def dataRowsOf_Arr del: dataRowsOf.simps)
    with removeRow_key [OF r(2) e(3,4)] k show False by simp
  qed
  from 1 2 show ?thesis by blast
qed

lemma empty_key_rows_never_reported_example:
  "detectChanges [(''S'', [[JStr ''id''], [JStr ''a'']])]
       [(''S'', [[JStr ''id''], [JStr ''  '', JStr ''x''], [JStr ''b'']])]
     = Inr [insertRowEvent ''S'' 3 2 [JStr ''b''], removeRowEvent ''S'' 2 2 [JStr ''a'']]
   \<and> (0::nat) < length (dataRows [[JStr ''id''], [JStr ''  '', JStr ''x''], [JStr ''b'']])
   \<and> normalizeValue (cellAt (dataRows [[JStr ''id''], [JStr ''  '', JStr ''x''], [JStr ''b'']] ! 0) 0) = []
   \<and> \<not> (\<exists>e \<in> set [insertRowEvent ''S'' 3 2 [JStr ''b''], removeRowEvent ''S'' 2 2 [JStr ''a'']].
          sheetName e = ''S'' \<and> changeType e = INSERT_ROW \<and> rowIndex e = Some (0 + 2))"
proof -
  let ?c = "[[JStr ''id''], [JStr ''  '', JStr ''x''], [JStr ''b'']]"
  let ?P = "[(''S'', [[JStr ''id''], [JStr ''a'']])]"
  let ?C = "[(''S'', ?c)]"
  let ?es = "[insertRowEvent ''S'' 3 2 [JStr ''b''], removeRowEvent ''S'' 2 2 [JStr ''a'']]"
  have ev: "detectChanges ?P ?C = Inr ?es" by code_simp
  have m: "map_of ?C ''S'' = Some ?c" by simp
  have h: "(0::nat) < length (dataRows ?c)"
    "normalizeValue (cellAt (dataRows ?c ! 0) 0) = []" by code_simp+
  from empty_key_rows_never_reported [OF ev, of "''S''" ?c 0] m h
  have "\<not> (\<exists>e \<in> set ?es. sheetName e = ''S'' \<and> changeType e = INSERT_ROW
            \<and> rowIndex e = Some (0 + 2))"
    by blast
  with ev h show ?thesis by blast
qed

text \<open>
  Claim C2. A data row whose primary key normalizes to the empty string is to be reported
  as inserted and as removed on every comparison that holds it; the comments above both
  key maps of \<open>detectRowChanges\<close> say so too (such rows \<open>will not be matched and may appear
  as inserted/deleted on every change detection\<close>). The code does not report them. With
  the header \<open>id, v\<close> and the row \<open>' ', 'x'\<close>, whose key is blank: the row added to the
  sheet yields no event, the row taken out of the sheet yields no event, the row with
  its second cell changed yields no event, and the row held unchanged by both snapshots
  yields no event, from \<open>detectRowChanges\<close> as from \<open>detectChanges\<close>.
\<close>

theorem empty_key_row_unreported:
  "normalizeValue (cellAt [JStr '' '', JStr ''x''] 0) = []
   \<and> detectChanges [(''S'', [[JStr ''id'', JStr ''v'']])]
        [(''S'', [[JStr ''id'', JStr ''v''], [JStr '' '', JStr ''x'']])] = Inr []
   \<and> detectChanges [(''S'', [[JStr ''id'', JStr ''v''], [JStr '' '', JStr ''x'']])]
        [(''S'', [[JStr ''id'', JStr ''v'']])] = Inr []
   \<and> detectChanges [(''S'', [[JStr ''id'', JStr ''v''], [JStr '' '', JStr ''x'']])]
        [(''S'', [[JStr ''id'', JStr ''v''], [JStr '' '', JStr ''y'']])] = Inr []
   \<and> detectChanges [(''S'', [[JStr ''id'', JStr ''v''], [JStr '' '', JStr ''x'']])]
        [(''S'', [[JStr ''id'', JStr ''v''], [JStr '' '', JStr ''x'']])] = Inr []
   \<and> detectRowChanges (Arr [[JStr ''id'', JStr ''v''], [JStr '' '', JStr ''x'']])
        (Arr [[JStr ''id'', JStr ''v''], [JStr '' '', JStr ''x'']]) ''S'' = Inr []
   \<and> detectRowChanges (Arr [[JStr ''id'', JStr ''v'']])
        (Arr [[JStr ''id'', JStr ''v''], [JStr '' '', JStr ''x'']]) ''S'' = Inr []"
  by code_simp

section \<open>The data of an inserted column\<close>

text \<open>
  Claim C6 says that \<open>insertedData\<close> of an \<open>INSERT_COLUMN\<close> event holds the current data-row
  values of the column with exactly the empty strings filtered out. The code maps a
  cell through \<open>row[currColIdx] || ''\<close> before it filters, so it also drops the number 0
  and \<open>false\<close>: of the values 0, 5 and \<open>false\<close> of a new column, none of them the empty
  string, only 5 is reported.
\<close>

theorem insertColumn_drops_falsy_values:
  "detectColumnChanges (Arr [[JStr ''id'']])
       (Arr [[JStr ''id'', JStr ''qty''], [JStr ''a'', JNum ''0''], [JStr ''b'', JNum ''5''],
             [JStr ''c'', JBool False]]) ''S''
     = Inr [insertColumnEvent ''S'' 1 (Num 4) [[JNum ''5'']]]
   \<and> map (\<lambda>r. cellAt r 1) (dataRows [[JStr ''id'', JStr ''qty''], [JStr ''a'', JNum ''0''],
             [JStr ''b'', JNum ''5''], [JStr ''c'', JBool False]])
       = [JNum ''0'', JNum ''5'', JBool False]
   \<and> filter (\<lambda>v. v \<noteq> JStr []) [JNum ''0'', JNum ''5'', JBool False]
       = [JNum ''0'', JNum ''5'', JBool False]"
  by code_simp

section \<open>Columns with a blank header\<close>


lemma distinct_fst: "distinct (map fst m) \<Longrightarrow> distinct m"
  by (simp add: distinct_map)

lemma colMap_index_unique:
  "(k, i) \<in> set (buildColMap h 0 []) \<Longrightarrow> (k', i) \<in> set (buildColMap h 0 []) \<Longrightarrow> k' = k"
  using colMap_sound by blast








section \<open>Snapshots that differ in one sheet\<close>

lemma concat_map_single:
  "distinct xs \<Longrightarrow> x \<in> set xs \<Longrightarrow> (\<And>y. y \<in> set xs \<Longrightarrow> y \<noteq> x \<Longrightarrow> f y = []) \<Longrightarrow>
     concat (map f xs) = f x"
proof (induction xs)
  case Nil
  then show ?case by simp
next
  case (Cons a xs)
  show ?case
  proof (cases "a = x")
    case True
    have "concat (map f xs) = []"
      using Cons.prems True by (intro concat_map_Nil) auto
    with True show ?thesis by simp
  next
    case False
    then have "f a = []" using Cons.prems(3) [of a] by simp
    moreover have "concat (map f xs) = f x" using Cons False by auto
    ultimately show ?thesis by simp
  qed
qed

lemma columnMapping_diag:
  "buildColumnMapping (buildColMap h 0 []) (buildColMap h 0 []) []
     = map (\<lambda>(k, i). (k, (i, i))) (buildColMap h 0 [])"
proof -
  let ?m = "buildColMap h 0 []"
  have "(case x of (k, i) \<Rightarrow> case map_of ?m k of Some j \<Rightarrow> [(k, (i, j))] | None \<Rightarrow> [])
          = [(case x of (k, i) \<Rightarrow> (k, (i, i)))]" if "x \<in> set ?m" for x
  proof -
    obtain k i where x: "x = (k, i)" by (cases x)
    with that have "map_of ?m k = Some i" using map_of_is_SomeI [OF colMap_distinct] by blast
    with x show ?thesis by simp
  qed
  then have "concat (map (\<lambda>(k, i). case map_of ?m k of Some j \<Rightarrow> [(k, (i, j))] | None \<Rightarrow> []) ?m)
      = concat (map (\<lambda>x. [(case x of (k, i) \<Rightarrow> (k, (i, i)))]) ?m)"
    by (intro arg_cong [where f = concat] map_cong) auto
  also have "\<dots> = map (\<lambda>(k, i). (k, (i, i))) ?m"
    by (induction ?m) auto
  finally show ?thesis
    using buildColumnMapping_eq [OF colMap_distinct, of h "[]" ?m] by simp
qed

lemma rowEdits_diag:
  "rowEdits name (map (\<lambda>(k, i). (k, (i, i))) m) prevRow currRow n
     = concat (map (\<lambda>(k, i).
         if i \<noteq> 0 \<and> normalizeValue (cellOrEmpty prevRow i) \<noteq> normalizeValue (cellOrEmpty currRow i)
         then [editEvent name n i (cellOrEmpty prevRow i) (cellOrEmpty currRow i)] else []) m)"
  unfolding rowEdits_def by (induction m) (auto simp: Let_def)

lemma columnEvents_same_header: "columnEvents h h maxRow pr cr name = []"
  by (simp add: columnEvents_def Let_def no_fresh_entries)

lemma rowEvents_same_keys:
  "buildRowMap cr 0 [] = buildRowMap pr 0 [] \<Longrightarrow> rowEvents pr cr name = []"
  by (simp add: rowEvents_def Let_def no_fresh_entries)

lemma map_of_other_sheet:
  "n \<noteq> s \<Longrightarrow> map_of (A @ (s, t) # B) n = map_of (A @ (s, t') # B) n"
  by (simp add: map_add_def split: option.splits)

lemma map_of_this_sheet:
  "s \<notin> fst ` set A \<Longrightarrow> map_of (A @ (s, t) # B) s = Some t"
proof -
  assume "s \<notin> fst ` set A"
  then have "map_of A s = None" by (simp add: map_of_eq_None_iff)
  then show ?thesis by (simp add: map_add_def)
qed

lemma one_sheet_changed:
  assumes d: "distinct (map fst (A @ (s, t) # B))"
    and ne: "t \<noteq> [] \<or> t' \<noteq> []"
    and found: "sheetChanges (Arr t) (Arr t') s = Inr found"
  shows "detectChanges (A @ (s, t) # B) (A @ (s, t') # B) = Inr found"
proof -
  let ?p = "A @ (s, t) # B" and ?c = "A @ (s, t') # B"
  have keys: "map fst ?c = map fst ?p" by simp
  have sA: "s \<notin> fst ` set A" and sB: "s \<notin> fst ` set B" using d by auto
  have names: "allSheetNames ?p ?c = map fst A @ s # map fst B"
  proof -
    have dc: "distinct (map fst ?c)" using d by simp
    have "filter (\<lambda>n. n \<notin> fst ` set ?p) (map fst ?c) = []"
      by (auto simp: filter_empty_conv)
    then show ?thesis using allSheetNames_union [OF d dc] by simp
  qed
  have here: "sheetResult ?p ?c s = Inr found"
  proof -
    have "lookupSheet ?p s = Arr t" "lookupSheet ?c s = Arr t'"
      using map_of_this_sheet [OF sA] by (simp_all add: lookupSheet_def)
    then show ?thesis using ne found by (auto simp: sheetResult_def Let_def)
  qed
  have other: "sheetResult ?p ?c n = Inr []" if n: "n \<in> fst ` set A \<union> fst ` set B" for n
  proof -
    have ns: "n \<noteq> s" using n sA sB by auto
    from n have "n \<in> fst ` set ?p" by auto
    then obtain tn where tn: "map_of ?p n = Some tn"
      by (metis domD dom_map_of_conv_image_fst)
    then have "map_of ?c n = Some tn" using map_of_other_sheet [OF ns, of A t B t'] by simp
    with tn have "lookupSheet ?p n = Arr tn" "lookupSheet ?c n = Arr tn"
      by (simp_all add: lookupSheet_def)
    then show ?thesis by (rule sheetResult_same)
  qed
  have ok: "\<exists>es. sheetResult ?p ?c n = Inr es" if "n \<in> set (allSheetNames ?p ?c)" for n
    using that here other unfolding names by auto
  have evA: "concat (map (sheetEvents ?p ?c) (map fst A)) = []"
    by (rule concat_map_Nil) (auto simp: sheetEvents_def other)
  have evB: "concat (map (sheetEvents ?p ?c) (map fst B)) = []"
    by (rule concat_map_Nil) (auto simp: sheetEvents_def other)
  have evs: "sheetEvents ?p ?c s = found" by (simp add: sheetEvents_def here)
  have "concat (map (sheetEvents ?p ?c) (map fst A @ s # map fst B))
      = concat (map (sheetEvents ?p ?c) (map fst A)) @ sheetEvents ?p ?c s
        @ concat (map (sheetEvents ?p ?c) (map fst B))"
    by simp
  then have all: "concat (map (sheetEvents ?p ?c) (allSheetNames ?p ?c)) = found"
    by (simp only: names evA evB evs append_Nil append_Nil2)
  have "detectChanges ?p ?c = Inr ([] @ concat (map (sheetEvents ?p ?c) (allSheetNames ?p ?c)))"
    unfolding detectChanges_def using ok by (intro detectLoop_ok) blast
  then show ?thesis by (simp only: all append_Nil)
qed

lemma headerRow_update: "0 < r \<Longrightarrow> headerRow (t[r := x]) = headerRow t"
  by (cases t; cases r) (simp_all add: headerRow_def)

lemma dataRows_update:
  "0 < r \<Longrightarrow> dataRows (t[r := x]) = (dataRows t)[r - 1 := x]"
  by (cases t; cases r) (auto simp: dataRows_def drop_Suc)

lemma dataRows_nth: "0 < r \<Longrightarrow> r < length t \<Longrightarrow> dataRows t ! (r - 1) = t ! r"
  by (cases t; cases r) (auto simp: dataRows_def)

lemma dataRows_length: "length (dataRows t) = length t - 1"
  by (simp add: dataRows_def)

section \<open>Edit isolation\<close>

lemma normalizeValue_cellOrEmpty: "normalizeValue (cellOrEmpty r i) = normalizeValue (cellAt r i)"
  by (simp add: cellOrEmpty_def normalizeValue_def trim_def)

lemma cellOrEmpty_cong: "cellAt q i = cellAt p i \<Longrightarrow> cellOrEmpty q i = cellOrEmpty p i"
  by (simp add: cellOrEmpty_def)

lemma cellOrEmpty_nth:
  "cellOrEmpty r i = (if cellAt r i = Undefined then JStr [] else r ! i)"
  by (simp add: cellOrEmpty_def cellAt_def)

lemma rowMap_cong:
  "map (\<lambda>r. normalizeValue (cellAt r 0)) rows' = map (\<lambda>r. normalizeValue (cellAt r 0)) rows
     \<Longrightarrow> buildRowMap rows' 0 [] = buildRowMap rows 0 []"
  by (simp add: rowMap_eq)

lemma rowEdits_one_cell:
  assumes c: "c < length h" "c \<noteq> 0"
    and first: "\<forall>j<c. normalizeValue (h ! j) \<noteq> normalizeValue (h ! c)"
    and same: "\<forall>i. i \<noteq> c \<longrightarrow> cellAt q i = cellAt p i"
    and diff: "normalizeValue (cellAt p c) \<noteq> normalizeValue (cellAt q c)"
  shows "rowEdits name (buildColumnMapping (buildColMap h 0 []) (buildColMap h 0 []) []) p q n
         = [editEvent name n c (cellOrEmpty p c) (cellOrEmpty q c)]"
proof -
  let ?m = "buildColMap h 0 []"
  let ?k = "normalizeValue (h ! c)"
  let ?F = "\<lambda>(k, i).
         if i \<noteq> 0 \<and> normalizeValue (cellOrEmpty p i) \<noteq> normalizeValue (cellOrEmpty q i)
         then [editEvent name n i (cellOrEmpty p i) (cellOrEmpty q i)] else []"
  have mem: "(?k, c) \<in> set ?m" using colMap_complete [OF c(1) first] .
  have other: "?F y = []" if y: "y \<in> set ?m" "y \<noteq> (?k, c)" for y
  proof -
    obtain k i where yi: "y = (k, i)" by (cases y)
    have "i \<noteq> c"
    proof
      assume "i = c"
      with y(1) yi colMap_index_unique [OF mem, of k] have "y = (?k, c)" by simp
      with y(2) show False by simp
    qed
    with same have "cellAt q i = cellAt p i" by blast
    then have "cellOrEmpty q i = cellOrEmpty p i" by (rule cellOrEmpty_cong)
    then show ?thesis using yi by simp
  qed
  have "concat (map ?F ?m) = ?F (?k, c)"
    using distinct_fst [OF colMap_distinct] mem other by (rule concat_map_single)
  also have "\<dots> = [editEvent name n c (cellOrEmpty p c) (cellOrEmpty q c)]"
    using c diff by (simp add: normalizeValue_cellOrEmpty)
  finally show ?thesis by (simp only: columnMapping_diag rowEdits_diag)
qed

lemma rowEdits_same_row:
  "rowEdits name (buildColumnMapping (buildColMap h 0 []) (buildColMap h 0 []) []) r r n = []"
  by (rule rowEdits_Nil) (use columnMapping_same in blast)

lemma cellEvents_one_cell:
  assumes r0: "r0 < length rows"
    and c: "c < length h"
    and key: "normalizeValue (cellAt (rows ! r0) 0) \<noteq> []"
    and key_same: "normalizeValue (cellAt q 0) = normalizeValue (cellAt (rows ! r0) 0)"
    and first_row: "\<forall>j<r0. normalizeValue (cellAt (rows ! j) 0) \<noteq> normalizeValue (cellAt (rows ! r0) 0)"
    and first_col: "\<forall>j<c. normalizeValue (h ! j) \<noteq> normalizeValue (h ! c)"
    and same: "\<forall>i. i \<noteq> c \<longrightarrow> cellAt q i = cellAt (rows ! r0) i"
    and diff: "normalizeValue (cellAt (rows ! r0) c) \<noteq> normalizeValue (cellAt q c)"
  shows "cellEvents h h rows (rows[r0 := q]) name
           = [editEvent name (r0 + 2) c (cellOrEmpty (rows ! r0) c) (cellOrEmpty q c)]"
    and "buildRowMap (rows[r0 := q]) 0 [] = buildRowMap rows 0 []"
proof -
  let ?row = "rows ! r0"
  let ?rows' = "rows[r0 := q]"
  let ?rm = "buildRowMap rows 0 []"
  let ?cm = "buildColumnMapping (buildColMap h 0 []) (buildColMap h 0 []) []"
  let ?k = "normalizeValue (cellAt ?row 0)"
  have c0: "c \<noteq> 0"
  proof
    assume "c = 0"
    with key_same diff show False by simp
  qed
  have keys: "map (\<lambda>r. normalizeValue (cellAt r 0)) ?rows' = map (\<lambda>r. normalizeValue (cellAt r 0)) rows"
    using r0 key_same by (simp add: map_update list_update_same_conv)
  show rm: "buildRowMap ?rows' 0 [] = ?rm" using keys by (rule rowMap_cong)
  let ?F = "\<lambda>(primaryKey, prevRowIdx).
          (case map_of ?rm primaryKey of None \<Rightarrow> []
           | Some currRowIdx \<Rightarrow> rowEdits name ?cm (rows ! prevRowIdx)
                (?rows' ! currRowIdx) (currRowIdx + 2))"
  have mem: "(?k, r0) \<in> set ?rm" using rowMap_complete [OF r0 key first_row] .
  have other: "?F y = []" if y: "y \<in> set ?rm" "y \<noteq> (?k, r0)" for y
  proof -
    obtain k i where yi: "y = (k, i)" by (cases y)
    have m: "map_of ?rm k = Some i"
      using y(1) yi map_of_is_SomeI [OF rowMap_distinct] by blast
    have "i \<noteq> r0"
    proof
      assume "i = r0"
      with y(1) yi rowMap_sound [of k i rows] have "y = (?k, r0)" by simp
      with y(2) show False by simp
    qed
    then have "?rows' ! i = rows ! i" by simp
    then show ?thesis using yi m by (simp add: rowEdits_same_row)
  qed
  have "concat (map ?F ?rm) = ?F (?k, r0)"
    using distinct_fst [OF rowMap_distinct] mem other by (rule concat_map_single)
  also have "\<dots> = rowEdits name ?cm ?row q (r0 + 2)"
    using map_of_is_SomeI [OF rowMap_distinct mem] r0 by simp
  also have "\<dots> = [editEvent name (r0 + 2) c (cellOrEmpty ?row c) (cellOrEmpty q c)]"
    using c c0 first_col same diff by (rule rowEdits_one_cell)
  finally show "cellEvents h h rows ?rows' name
      = [editEvent name (r0 + 2) c (cellOrEmpty ?row c) (cellOrEmpty q c)]"
    by (simp add: cellEvents_def Let_def rm)
qed

text \<open>
  Claim C7. Let two snapshots differ in exactly one cell: the cell in column \<open>c\<close> of the
  data row \<open>r\<close> of the sheet \<open>s\<close>, whose row \<open>t ! r\<close> becomes \<open>q\<close>; every other cell of the
  row reads the same before and after, a cell beyond the end of a row reading as
  \<open>undefined\<close>, so that the row may grow or shrink by the changed cell. The row is matched
  by its primary key (the key is not blank, no earlier data row has it, and the change
  leaves it as it is) and the column by its header (the header row has a cell \<open>c\<close>, and no
  earlier header cell has its text), and the old and the new value of the cell normalize
  differently. Then \<open>detectChanges\<close> returns exactly one event: the \<open>EDIT\<close> of that cell,
  with the old value of the cell as \<open>oldValue\<close> and the new one as \<open>newValue\<close>, a missing
  cell being reported as the empty string.
\<close>

theorem edit_isolation:
  assumes d: "distinct (map fst (A @ (s, t) # B))"
    and r: "0 < r" "r < length t"
    and c: "c < length (t ! 0)"
    and key: "normalizeValue (cellAt (t ! r) 0) \<noteq> []"
    and key_same: "normalizeValue (cellAt q 0) = normalizeValue (cellAt (t ! r) 0)"
    and first_row:
      "\<forall>j. 0 < j \<and> j < r \<longrightarrow>
         normalizeValue (cellAt (t ! j) 0) \<noteq> normalizeValue (cellAt (t ! r) 0)"
    and first_col: "\<forall>j<c. normalizeValue (t ! 0 ! j) \<noteq> normalizeValue (t ! 0 ! c)"
    and same: "\<forall>i. i \<noteq> c \<longrightarrow> cellAt q i = cellAt (t ! r) i"
    and diff: "normalizeValue (cellAt (t ! r) c) \<noteq> normalizeValue (cellAt q c)"
  shows "detectChanges (A @ (s, t) # B) (A @ (s, t[r := q]) # B)
           = Inr [editEvent s (r + 1) c (cellOrEmpty (t ! r) c) (cellOrEmpty q c)]
         \<and> changeType (editEvent s (r + 1) c (cellOrEmpty (t ! r) c) (cellOrEmpty q c)) = EDIT
         \<and> oldValue (editEvent s (r + 1) c (cellOrEmpty (t ! r) c) (cellOrEmpty q c))
             = Some (if cellAt (t ! r) c = Undefined then JStr [] else t ! r ! c)
         \<and> newValue (editEvent s (r + 1) c (cellOrEmpty (t ! r) c) (cellOrEmpty q c))
             = Some (if cellAt q c = Undefined then JStr [] else q ! c)"
proof -
  let ?t' = "t[r := q]"
  let ?rows = "dataRows t"
  let ?r0 = "r - 1"
  let ?h = "headerRow t"
  have tne: "t \<noteq> []" using r by auto
  have h: "?h = t ! 0" using tne by (simp add: headerRow_def hd_conv_nth)
  have h': "headerRow ?t' = ?h" using r(1) by (rule headerRow_update)
  have row: "?rows ! ?r0 = t ! r" using r by (rule dataRows_nth)
  have rows': "dataRows ?t' = ?rows[?r0 := q]"
    using dataRows_update [OF r(1)] by simp
  have r0: "?r0 < length ?rows" using r by (simp add: dataRows_length)
  have fr: "\<forall>j<?r0. normalizeValue (cellAt (?rows ! j) 0)
              \<noteq> normalizeValue (cellAt (?rows ! ?r0) 0)"
  proof (intro allI impI)
    fix j assume j: "j < ?r0"
    then have "?rows ! (Suc j - 1) = t ! Suc j" using r by (intro dataRows_nth) simp_all
    then have "?rows ! j = t ! Suc j" by simp
    moreover have "0 < Suc j \<and> Suc j < r" using j by simp
    ultimately show "normalizeValue (cellAt (?rows ! j) 0)
              \<noteq> normalizeValue (cellAt (?rows ! ?r0) 0)"
      using first_row row by simp
  qed
  have c': "c < length ?h" unfolding h by (rule c)
  have key': "normalizeValue (cellAt (?rows ! ?r0) 0) \<noteq> []"
    unfolding row by (rule key)
  have key_same': "normalizeValue (cellAt q 0) = normalizeValue (cellAt (?rows ! ?r0) 0)"
    unfolding row by (rule key_same)
  have fc': "\<forall>j<c. normalizeValue (?h ! j) \<noteq> normalizeValue (?h ! c)"
    unfolding h by (rule first_col)
  have same': "\<forall>i. i \<noteq> c \<longrightarrow> cellAt q i = cellAt (?rows ! ?r0) i"
    unfolding row by (rule same)
  have diff': "normalizeValue (cellAt (?rows ! ?r0) c) \<noteq> normalizeValue (cellAt q c)"
    unfolding row by (rule diff)
  note one = cellEvents_one_cell [OF r0 c' key' key_same' fr fc' same' diff']
  have ce: "cellEvents ?h ?h ?rows (?rows[?r0 := q]) s
           = [editEvent s (?r0 + 2) c (cellOrEmpty (?rows ! ?r0) c) (cellOrEmpty q c)]"
    by (rule one(1))
  have rm: "buildRowMap (?rows[?r0 := q]) 0 [] = buildRowMap ?rows 0 []"
    by (rule one(2))
  have n: "?r0 + 2 = r + 1" using r(1) by simp
  have "sheetChanges (Arr t) (Arr ?t') s
      = Inr [editEvent s (?r0 + 2) c (cellOrEmpty (?rows ! ?r0) c) (cellOrEmpty q c)]"
    unfolding sheetChanges_Arr h' rows'
    by (simp only: ce rowEvents_same_keys [OF rm] columnEvents_same_header append_Nil)
  then have "sheetChanges (Arr t) (Arr ?t') s
      = Inr [editEvent s (r + 1) c (cellOrEmpty (t ! r) c) (cellOrEmpty q c)]"
    unfolding row n .
  with d tne have "detectChanges (A @ (s, t) # B) (A @ (s, ?t') # B)
           = Inr [editEvent s (r + 1) c (cellOrEmpty (t ! r) c) (cellOrEmpty q c)]"
    by (intro one_sheet_changed) simp_all
  then show ?thesis by (simp add: editEvent_def Let_def cellOrEmpty_nth)
qed

theorem edit_isolation_witness:
  "detectChanges
     [(''Sheet1'', [[JStr ''Name'', JStr ''Age''], [JStr ''alice'', JStr ''30'']])]
     [(''Sheet1'', [[JStr ''Name'', JStr ''Age''], [JStr ''alice'', JStr ''31'']])]
   = Inr [editEvent ''Sheet1'' 2 1 (JStr ''30'') (JStr ''31'')]
   \<and> cellAddress (editEvent ''Sheet1'' 2 1 (JStr ''30'') (JStr ''31'')) = Some ''B2''
   \<and> detectChanges
     [(''Sheet1'', [[JStr ''Name'', JStr ''Age''], [JStr ''alice'']])]
     [(''Sheet1'', [[JStr ''Name'', JStr ''Age''], [JStr ''alice'', JStr ''31'']])]
   = Inr [editEvent ''Sheet1'' 2 1 (JStr []) (JStr ''31'')]"
proof -
  let ?t = "[[JStr ''Name'', JStr ''Age''], [JStr ''alice'', JStr ''30'']]"
  let ?u = "[[JStr ''Name'', JStr ''Age''], [JStr ''alice'']]"
  let ?q = "[JStr ''alice'', JStr ''31'']"
  have n: "normalizeValue (JStr ''alice'') = ''alice''" "normalizeValue (JStr ''Name'') = ''Name''"
    "normalizeValue (JStr ''Age'') = ''Age''" "normalizeValue (JStr ''30'') = ''30''"
    "normalizeValue (JStr ''31'') = ''31''" "normalizeValue Undefined = []"
    by (simp_all add: normalizeValue_def trim_def isWhiteSpace_def)
  have s1: "\<forall>i. i \<noteq> 1 \<longrightarrow> cellAt ?q i = cellAt (?t ! 1) i"
    by (simp add: cellAt_def nth_Cons')
  have s2: "\<forall>i. i \<noteq> 1 \<longrightarrow> cellAt ?q i = cellAt (?u ! 1) i"
    by (simp add: cellAt_def nth_Cons')
  have "detectChanges ([] @ (''Sheet1'', ?t) # []) ([] @ (''Sheet1'', ?t[1 := ?q]) # [])
        = Inr [editEvent ''Sheet1'' (1 + 1) 1 (cellOrEmpty (?t ! 1) 1) (cellOrEmpty ?q 1)]"
    using edit_isolation [of "[]" "''Sheet1''" ?t "[]" 1 1 ?q] s1
    by (simp add: cellAt_def n)
  moreover have "detectChanges ([] @ (''Sheet1'', ?u) # []) ([] @ (''Sheet1'', ?u[1 := ?q]) # [])
        = Inr [editEvent ''Sheet1'' (1 + 1) 1 (cellOrEmpty (?u ! 1) 1) (cellOrEmpty ?q 1)]"
    using edit_isolation [of "[]" "''Sheet1''" ?u "[]" 1 1 ?q] s2
    by (simp add: cellAt_def n)
  moreover have "cellAddress (editEvent ''Sheet1'' 2 1 (JStr ''30'') (JStr ''31'')) = Some ''B2''"
    by code_simp
  ultimately show ?thesis by (simp add: numeral_2_eq_2 cellOrEmpty_def cellAt_def)
qed

section \<open>A changed primary key\<close>

lemma firstIndices_mid:
  assumes "ok x" "x \<notin> set as" "x \<notin> set bs"
  shows "firstIndices ok (as @ x # bs) 0 {}
     = firstIndices ok as 0 {} @ (x, length as)
       # firstIndices ok bs (Suc (length as)) {y \<in> set as. ok y}"
proof -
  have "firstIndices ok bs (Suc (length as)) (insert x {y \<in> set as. ok y})
      = firstIndices ok bs (Suc (length as)) {y \<in> set as. ok y}"
    using assms(3) by (intro firstIndices_cong) auto
  then show ?thesis
    using assms(1,2) firstIndices_append [of ok as "x # bs" 0 "{}"] by simp
qed

lemma rowMap_split:
  assumes r0: "r0 < length rows"
    and key: "normalizeValue (cellAt (rows ! r0) 0) \<noteq> []"
    and unique: "\<forall>j<length rows. j \<noteq> r0 \<longrightarrow>
        normalizeValue (cellAt (rows ! j) 0) \<noteq> normalizeValue (cellAt (rows ! r0) 0)"
  shows "\<exists>M E. buildRowMap rows 0 [] = M @ (normalizeValue (cellAt (rows ! r0) 0), r0) # E
          \<and> M = firstIndices (\<lambda>k. k \<noteq> [])
                  (take r0 (map (\<lambda>r. normalizeValue (cellAt r 0)) rows)) 0 {}
          \<and> E = firstIndices (\<lambda>k. k \<noteq> [])
                  (drop (Suc r0) (map (\<lambda>r. normalizeValue (cellAt r 0)) rows)) (Suc r0)
                  {y \<in> set (take r0 (map (\<lambda>r. normalizeValue (cellAt r 0)) rows)). y \<noteq> []}"
proof -
  let ?ks = "map (\<lambda>r. normalizeValue (cellAt r 0)) rows"
  let ?k = "normalizeValue (cellAt (rows ! r0) 0)"
  have ks: "?ks = take r0 ?ks @ ?k # drop (Suc r0) ?ks"
    using r0 id_take_nth_drop [of r0 ?ks] by simp
  have a: "?k \<notin> set (take r0 ?ks)"
    using unique r0 by (auto simp: in_set_conv_nth)
  have b: "?k \<notin> set (drop (Suc r0) ?ks)"
    using unique r0 by (auto simp: in_set_conv_nth)
  have "firstIndices (\<lambda>k. k \<noteq> []) (take r0 ?ks @ ?k # drop (Suc r0) ?ks) 0 {}
     = firstIndices (\<lambda>k. k \<noteq> []) (take r0 ?ks) 0 {} @ (?k, length (take r0 ?ks))
       # firstIndices (\<lambda>k. k \<noteq> []) (drop (Suc r0) ?ks) (Suc (length (take r0 ?ks)))
           {y \<in> set (take r0 ?ks). y \<noteq> []}"
    using key a b by (intro firstIndices_mid) simp_all
  moreover have "length (take r0 ?ks) = r0" using r0 by simp
  ultimately show ?thesis using ks by (simp add: rowMap_eq)
qed

lemma key_change_maps:
  assumes r0: "r0 < length rows" and cell: "rows ! r0 \<noteq> []"
    and key: "normalizeValue (rows ! r0 ! 0) \<noteq> []"
    and new: "normalizeValue v \<noteq> []"
    and unique: "\<forall>j<length rows. j \<noteq> r0 \<longrightarrow>
        normalizeValue (cellAt (rows ! j) 0) \<noteq> normalizeValue (rows ! r0 ! 0)"
    and fresh: "\<forall>j<length rows. normalizeValue (cellAt (rows ! j) 0) \<noteq> normalizeValue v"
  shows "\<exists>M E. buildRowMap rows 0 [] = M @ (normalizeValue (rows ! r0 ! 0), r0) # E
          \<and> buildRowMap (rows[r0 := (rows ! r0)[0 := v]]) 0 [] = M @ (normalizeValue v, r0) # E
          \<and> normalizeValue (rows ! r0 ! 0) \<notin> fst ` set M \<union> fst ` set E
          \<and> normalizeValue v \<notin> fst ` set M \<union> fst ` set E
          \<and> (\<forall>(k, i) \<in> set M \<union> set E. i \<noteq> r0)"
proof -
  let ?row = "rows ! r0"
  let ?rows' = "rows[r0 := ?row[0 := v]]"
  let ?key = "\<lambda>r. normalizeValue (cellAt r 0)"
  let ?k = "normalizeValue (?row ! 0)" and ?k' = "normalizeValue v"
  have c0: "cellAt ?row 0 = ?row ! 0" "cellAt (?row[0 := v]) 0 = v"
    using cell by (simp_all add: cellAt_def)
  have kk: "?k' \<noteq> ?k" using fresh r0 c0 by auto
  have r0': "r0 < length ?rows'" using r0 by simp
  have row': "?rows' ! r0 = ?row[0 := v]" using r0 by simp
  have key1: "?key (rows ! r0) \<noteq> []" using key c0 by simp
  have key2: "?key (?rows' ! r0) \<noteq> []" using new c0 row' by simp
  have u1: "\<forall>j<length rows. j \<noteq> r0 \<longrightarrow> ?key (rows ! j) \<noteq> ?key (rows ! r0)"
    using unique c0 by simp
  have u2: "\<forall>j<length ?rows'. j \<noteq> r0 \<longrightarrow> ?key (?rows' ! j) \<noteq> ?key (?rows' ! r0)"
    using fresh c0 row' by simp
  have tk: "take r0 (map ?key ?rows') = take r0 (map ?key rows)"
    by (simp add: map_update)
  have dr: "drop (Suc r0) (map ?key ?rows') = drop (Suc r0) (map ?key rows)"
    by (simp add: map_update)
  let ?M = "firstIndices (\<lambda>k. k \<noteq> []) (take r0 (map ?key rows)) 0 {}"
  let ?E = "firstIndices (\<lambda>k. k \<noteq> []) (drop (Suc r0) (map ?key rows)) (Suc r0)
              {y \<in> set (take r0 (map ?key rows)). y \<noteq> []}"
  have p: "buildRowMap rows 0 [] = ?M @ (?k, r0) # ?E"
    using rowMap_split [OF r0 key1 u1] c0 by simp
  have q: "buildRowMap ?rows' 0 [] = ?M @ (?k', r0) # ?E"
    using rowMap_split [OF r0' key2 u2] c0 row' tk dr by simp
  have keysM: "fst ` set ?M \<subseteq> set (take r0 (map ?key rows))"
    by (auto simp: firstIndices_keys)
  have keysE: "fst ` set ?E \<subseteq> set (drop (Suc r0) (map ?key rows))"
    by (auto simp: firstIndices_keys)
  have inA: "x \<in> set (take r0 (map ?key rows)) \<Longrightarrow> \<exists>j<length rows. j \<noteq> r0 \<and> x = ?key (rows ! j)" for x
  proof -
    assume "x \<in> set (take r0 (map ?key rows))"
    then obtain i where i: "i < r0" "x = ?key (rows ! i)"
      using r0 by (auto simp: in_set_conv_nth)
    then have "i < length rows \<and> i \<noteq> r0 \<and> x = ?key (rows ! i)" using r0 by simp
    then show ?thesis by blast
  qed
  have inB: "x \<in> set (drop (Suc r0) (map ?key rows)) \<Longrightarrow> \<exists>j<length rows. j \<noteq> r0 \<and> x = ?key (rows ! j)" for x
  proof -
    assume "x \<in> set (drop (Suc r0) (map ?key rows))"
    then obtain i where i: "i < length rows - Suc r0" "x = ?key (rows ! (Suc r0 + i))"
      by (auto simp: in_set_conv_nth)
    then have "Suc r0 + i < length rows \<and> Suc r0 + i \<noteq> r0 \<and> x = ?key (rows ! (Suc r0 + i))"
      by simp
    then show ?thesis by blast
  qed
  have other: "\<exists>j<length rows. j \<noteq> r0 \<and> x = ?key (rows ! j)"
    if "x \<in> fst ` set ?M \<union> fst ` set ?E" for x
  proof -
    from that keysM keysE
    have "x \<in> set (take r0 (map ?key rows)) \<or> x \<in> set (drop (Suc r0) (map ?key rows))"
      by blast
    then show ?thesis using inA inB by blast
  qed
  have nk: "?k \<notin> fst ` set ?M \<union> fst ` set ?E"
  proof
    assume "?k \<in> fst ` set ?M \<union> fst ` set ?E"
    from other [OF this] obtain j where "j < length rows" "j \<noteq> r0" "?k = ?key (rows ! j)"
      by blast
    with unique show False by metis
  qed
  have nk': "?k' \<notin> fst ` set ?M \<union> fst ` set ?E"
  proof
    assume "?k' \<in> fst ` set ?M \<union> fst ` set ?E"
    from other [OF this] obtain j where "j < length rows" "j \<noteq> r0" "?k' = ?key (rows ! j)"
      by blast
    with fresh show False by metis
  qed
  have idx0: "i \<noteq> r0" if m: "(k, i) \<in> set ?M \<union> set ?E" for k i
  proof
    assume "i = r0"
    with m have "(k, r0) \<in> set (?M @ (?k, r0) # ?E)" by auto
    then have "(k, r0) \<in> set (buildRowMap rows 0 [])" by (simp only: p)
    from rowMap_sound [OF this] have "k = ?k" using c0 by simp
    moreover have "fst (k, i) \<in> fst ` (set ?M \<union> set ?E)" using m by (rule imageI)
    then have "k \<in> fst ` set ?M \<union> fst ` set ?E" by (simp add: image_Un)
    ultimately show False using nk by simp
  qed
  have idx: "\<forall>(k, i) \<in> set ?M \<union> set ?E. i \<noteq> r0"
    using idx0 by blast
  show ?thesis
    by (rule exI [of _ ?M], rule exI [of _ ?E]) (intro conjI p q nk nk' idx)
qed

lemma filter_fresh_key:
  assumes "k' \<notin> fst ` set M \<union> fst ` set E" "k' \<noteq> k"
  shows "filter (\<lambda>(key, i). key \<notin> fst ` set (M @ (k, r0) # E)) (M @ (k', r0) # E) = [(k', r0)]"
proof -
  have "filter (\<lambda>(key, i). key \<notin> fst ` set (M @ (k, r0) # E)) M = []"
    by (force simp: filter_empty_conv)
  moreover have "filter (\<lambda>(key, i). key \<notin> fst ` set (M @ (k, r0) # E)) E = []"
    by (force simp: filter_empty_conv)
  moreover have "k' \<notin> fst ` set (M @ (k, r0) # E)" using assms by auto
  ultimately show ?thesis by simp
qed

lemma rowEvents_key_change:
  assumes pm: "buildRowMap pr 0 [] = M @ (k, r0) # E"
    and cm: "buildRowMap cr 0 [] = M @ (k', r0) # E"
    and nk: "k \<notin> fst ` set M \<union> fst ` set E"
    and nk': "k' \<notin> fst ` set M \<union> fst ` set E"
    and kk: "k' \<noteq> k"
  shows "rowEvents pr cr name
     = [insertRowEvent name (r0 + 2) (maxCol pr cr (cr ! r0)) (cr ! r0),
        removeRowEvent name (r0 + 2) (maxCol pr cr (pr ! r0)) (pr ! r0)]"
proof -
  have kk': "k \<noteq> k'" using kk by simp
  show ?thesis
    unfolding rowEvents_eq pm cm
    by (simp only: filter_fresh_key [OF nk' kk] filter_fresh_key [OF nk kk'])
       simp
qed

lemma cellEvents_key_change:
  assumes pm: "buildRowMap pr 0 [] = M @ (k, r0) # E"
    and cm: "buildRowMap cr 0 [] = M @ (k', r0) # E"
    and nk: "k \<notin> fst ` set M \<union> fst ` set E"
    and kk: "k' \<noteq> k"
    and idx: "\<forall>(key, i) \<in> set M \<union> set E. i \<noteq> r0"
    and same: "\<forall>i. i \<noteq> r0 \<longrightarrow> cr ! i = pr ! i"
  shows "cellEvents h h pr cr name = []"
proof -
  let ?cmap = "buildColumnMapping (buildColMap h 0 []) (buildColMap h 0 []) []"
  let ?F = "\<lambda>(primaryKey, prevRowIdx).
          (case map_of (buildRowMap cr 0 []) primaryKey of None \<Rightarrow> []
           | Some currRowIdx \<Rightarrow> rowEdits name ?cmap (pr ! prevRowIdx)
                (cr ! currRowIdx) (currRowIdx + 2))"
  have dc: "distinct (map fst (M @ (k', r0) # E))"
    using rowMap_distinct [of cr] by (simp only: cm)
  have "?F y = []" if y: "y \<in> set (buildRowMap pr 0 [])" for y
  proof (cases "y = (k, r0)")
    case True
    have "k \<notin> fst ` set (M @ (k', r0) # E)" using nk kk by auto
    then have "map_of (buildRowMap cr 0 []) k = None"
      by (simp only: cm map_of_eq_None_iff) simp
    with True show ?thesis by simp
  next
    case False
    obtain key i where yi: "y = (key, i)" by (cases y)
    from y False yi have m: "(key, i) \<in> set M \<union> set E" by (simp add: pm) blast
    then have "(key, i) \<in> set (M @ (k', r0) # E)" by auto
    from map_of_is_SomeI [OF dc this] have g: "map_of (buildRowMap cr 0 []) key = Some i"
      by (simp only: cm)
    from idx m have "i \<noteq> r0" by blast
    with same have "cr ! i = pr ! i" by simp
    with g yi show ?thesis by (simp add: rowEdits_same_row)
  qed
  then have "concat (map ?F (buildRowMap pr 0 [])) = []" by (rule concat_map_Nil)
  then show ?thesis by (simp add: cellEvents_def Let_def)
qed

lemma cellEvents_skip_key_column:
  assumes "e \<in> set (cellEvents h h pr cr name)"
  shows "changeType e = EDIT \<and> startColumn (affectedRange e) \<noteq> 1"
proof -
  let ?cmap = "buildColumnMapping (buildColMap h 0 []) (buildColMap h 0 []) []"
  from assms obtain p c n where "e \<in> set (rowEdits name ?cmap p c n)"
    by (auto simp: cellEvents_def Let_def split: option.splits)
  then obtain i where "i \<noteq> 0" "e = editEvent name n i (cellOrEmpty p i) (cellOrEmpty c i)"
    unfolding columnMapping_diag rowEdits_diag by (auto split: if_splits)
  then show ?thesis by (simp add: editEvent_def Let_def)
qed

text \<open>
  Claim C8 says that changing only the primary-key cell of one data row to a different
  non-blank key is reported as one \<open>REMOVE_ROW\<close> for the old key and one \<open>INSERT_ROW\<close> for
  the new one. When another data row already holds the new key there is no
  \<open>INSERT_ROW\<close> (and the row that now comes first under that key is compared with the
  other one, which yields an \<open>EDIT\<close>); when the old key is blank there is no
  \<open>REMOVE_ROW\<close>.
\<close>

theorem key_change_with_duplicate_or_blank_key:
  "detectChanges
     [(''S'', [[JStr ''id'', JStr ''v''], [JStr ''a'', JStr ''1''], [JStr ''b'', JStr ''2'']])]
     [(''S'', [[JStr ''id'', JStr ''v''], [JStr ''b'', JStr ''1''], [JStr ''b'', JStr ''2'']])]
   = Inr [removeRowEvent ''S'' 2 2 [JStr ''a'', JStr ''1''],
          editEvent ''S'' 2 1 (JStr ''2'') (JStr ''1'')]
   \<and> detectChanges [(''S'', [[JStr ''id''], [JStr []]])] [(''S'', [[JStr ''id''], [JStr ''b'']])]
   = Inr [insertRowEvent ''S'' 2 1 [JStr ''b'']]
   \<and> normalizeValue (JStr ''a'') \<noteq> normalizeValue (JStr ''b'')
   \<and> normalizeValue (JStr ''b'') \<noteq> []"
  by code_simp

text \<open>
  Claim C8, as the code has it. Let two snapshots differ only in the primary-key cell of
  the data row \<open>r\<close> of the sheet \<open>s\<close>, where the old key is not blank and no other data
  row of the sheet has it, and the new key is not blank and no data row of the previous
  sheet has it (so it differs from the old one). Then \<open>detectChanges\<close> returns exactly
  two events, the \<open>INSERT_ROW\<close> of the row under its new key and the \<open>REMOVE_ROW\<close> of the
  row under its old key, both at the number of the row, and no \<open>EDIT\<close>. Whenever two
  tables have the same header row, the Cell Edit Scanner emits edits only, none of
  them in column 1.
\<close>

theorem key_change_is_insert_and_remove:
  assumes d: "distinct (map fst (A @ (s, t) # B))"
    and r: "0 < r" "r < length t" and cell: "t ! r \<noteq> []"
    and old_key: "normalizeValue (t ! r ! 0) \<noteq> []"
    and new_key: "normalizeValue v \<noteq> []"
    and unique_old:
      "\<forall>j. 0 < j \<and> j < length t \<and> j \<noteq> r \<longrightarrow>
         normalizeValue (cellAt (t ! j) 0) \<noteq> normalizeValue (t ! r ! 0)"
    and fresh_new:
      "\<forall>j. 0 < j \<and> j < length t \<longrightarrow> normalizeValue (cellAt (t ! j) 0) \<noteq> normalizeValue v"
  shows "detectChanges (A @ (s, t) # B) (A @ (s, t[r := (t ! r)[0 := v]]) # B)
           = Inr [insertRowEvent s (r + 1)
                    (maxCol (dataRows t) (dataRows (t[r := (t ! r)[0 := v]])) ((t ! r)[0 := v]))
                    ((t ! r)[0 := v]),
                  removeRowEvent s (r + 1)
                    (maxCol (dataRows t) (dataRows (t[r := (t ! r)[0 := v]])) (t ! r))
                    (t ! r)]
         \<and> (\<forall>e \<in> set (cellEvents h h pr cr name).
               changeType e = EDIT \<and> startColumn (affectedRange e) \<noteq> 1)"
proof -
  let ?t' = "t[r := (t ! r)[0 := v]]"
  let ?rows = "dataRows t"
  let ?r0 = "r - 1"
  let ?h = "headerRow t"
  have tne: "t \<noteq> []" using r by auto
  have h': "headerRow ?t' = ?h" using r(1) by (rule headerRow_update)
  have row: "?rows ! ?r0 = t ! r" using r by (rule dataRows_nth)
  have rows': "dataRows ?t' = ?rows[?r0 := (?rows ! ?r0)[0 := v]]"
    using dataRows_update [OF r(1)] row by simp
  have r0: "?r0 < length ?rows" using r by (simp add: dataRows_length)
  have nth: "?rows ! j = t ! Suc j" if "j < length ?rows" for j
  proof -
    have "?rows ! (Suc j - 1) = t ! Suc j"
      using that by (intro dataRows_nth) (simp_all add: dataRows_length)
    then show ?thesis by simp
  qed
  have cell': "?rows ! ?r0 \<noteq> []" unfolding row by (rule cell)
  have key': "normalizeValue (?rows ! ?r0 ! 0) \<noteq> []" unfolding row by (rule old_key)
  have unique': "\<forall>j<length ?rows. j \<noteq> ?r0 \<longrightarrow>
        normalizeValue (cellAt (?rows ! j) 0) \<noteq> normalizeValue (?rows ! ?r0 ! 0)"
  proof (intro allI impI)
    fix j assume j: "j < length ?rows" "j \<noteq> ?r0"
    then have "0 < Suc j \<and> Suc j < length t \<and> Suc j \<noteq> r"
      using r by (auto simp: dataRows_length)
    with unique_old have "normalizeValue (cellAt (t ! Suc j) 0) \<noteq> normalizeValue (t ! r ! 0)"
      by blast
    then show "normalizeValue (cellAt (?rows ! j) 0) \<noteq> normalizeValue (?rows ! ?r0 ! 0)"
      unfolding row using nth [OF j(1)] by simp
  qed
  have fresh': "\<forall>j<length ?rows. normalizeValue (cellAt (?rows ! j) 0) \<noteq> normalizeValue v"
  proof (intro allI impI)
    fix j assume j: "j < length ?rows"
    then have "0 < Suc j \<and> Suc j < length t" by (simp add: dataRows_length)
    with fresh_new have "normalizeValue (cellAt (t ! Suc j) 0) \<noteq> normalizeValue v" by blast
    then show "normalizeValue (cellAt (?rows ! j) 0) \<noteq> normalizeValue v"
      using nth [OF j] by simp
  qed
  from key_change_maps [OF r0 cell' key' new_key unique' fresh']
  obtain M E where
    pm: "buildRowMap ?rows 0 [] = M @ (normalizeValue (?rows ! ?r0 ! 0), ?r0) # E"
    and cm: "buildRowMap (?rows[?r0 := (?rows ! ?r0)[0 := v]]) 0 []
              = M @ (normalizeValue v, ?r0) # E"
    and nk: "normalizeValue (?rows ! ?r0 ! 0) \<notin> fst ` set M \<union> fst ` set E"
    and nk': "normalizeValue v \<notin> fst ` set M \<union> fst ` set E"
    and idx: "\<forall>(k, i) \<in> set M \<union> set E. i \<noteq> ?r0"
    by blast
  have kk: "normalizeValue v \<noteq> normalizeValue (?rows ! ?r0 ! 0)"
    using fresh' r0 cell' by (auto simp: cellAt_def)
  have same: "\<forall>i. i \<noteq> ?r0 \<longrightarrow> ?rows[?r0 := (?rows ! ?r0)[0 := v]] ! i = ?rows ! i"
    by simp
  have re: "rowEvents ?rows (?rows[?r0 := (?rows ! ?r0)[0 := v]]) s
     = [insertRowEvent s (?r0 + 2)
          (maxCol ?rows (?rows[?r0 := (?rows ! ?r0)[0 := v]])
             (?rows[?r0 := (?rows ! ?r0)[0 := v]] ! ?r0))
          (?rows[?r0 := (?rows ! ?r0)[0 := v]] ! ?r0),
        removeRowEvent s (?r0 + 2)
          (maxCol ?rows (?rows[?r0 := (?rows ! ?r0)[0 := v]]) (?rows ! ?r0)) (?rows ! ?r0)]"
    using pm cm nk nk' kk by (rule rowEvents_key_change)
  have ce: "cellEvents ?h ?h ?rows (?rows[?r0 := (?rows ! ?r0)[0 := v]]) s = []"
    using pm cm nk kk idx same by (rule cellEvents_key_change)
  have upd: "?rows[?r0 := (?rows ! ?r0)[0 := v]] ! ?r0 = (?rows ! ?r0)[0 := v]"
    using r0 by simp
  have n: "?r0 + 2 = r + 1" using r(1) by simp
  have "sheetChanges (Arr t) (Arr ?t') s
     = Inr [insertRowEvent s (?r0 + 2)
              (maxCol ?rows (?rows[?r0 := (?rows ! ?r0)[0 := v]]) ((?rows ! ?r0)[0 := v]))
              ((?rows ! ?r0)[0 := v]),
            removeRowEvent s (?r0 + 2)
              (maxCol ?rows (?rows[?r0 := (?rows ! ?r0)[0 := v]]) (?rows ! ?r0)) (?rows ! ?r0)]"
    unfolding sheetChanges_Arr h' rows'
    by (simp only: re ce columnEvents_same_header upd append_Nil append_Nil2)
  then have "sheetChanges (Arr t) (Arr ?t') s
     = Inr [insertRowEvent s (r + 1)
              (maxCol ?rows (dataRows ?t') ((t ! r)[0 := v])) ((t ! r)[0 := v]),
            removeRowEvent s (r + 1) (maxCol ?rows (dataRows ?t') (t ! r)) (t ! r)]"
    unfolding rows' unfolding row n .
  with d tne have "detectChanges (A @ (s, t) # B) (A @ (s, ?t') # B)
     = Inr [insertRowEvent s (r + 1)
              (maxCol ?rows (dataRows ?t') ((t ! r)[0 := v])) ((t ! r)[0 := v]),
            removeRowEvent s (r + 1) (maxCol ?rows (dataRows ?t') (t ! r)) (t ! r)]"
    by (intro one_sheet_changed) simp_all
  then show ?thesis using cellEvents_skip_key_column by blast
qed

theorem key_change_is_insert_and_remove_witness:
  "detectChanges
     [(''S'', [[JStr ''id'', JStr ''v''], [JStr ''a'', JStr ''1''], [JStr ''b'', JStr ''2'']])]
     [(''S'', [[JStr ''id'', JStr ''v''], [JStr ''c'', JStr ''1''], [JStr ''b'', JStr ''2'']])]
   = Inr [insertRowEvent ''S'' 2 2 [JStr ''c'', JStr ''1''],
          removeRowEvent ''S'' 2 2 [JStr ''a'', JStr ''1'']]"
proof -
  let ?t = "[[JStr ''id'', JStr ''v''], [JStr ''a'', JStr ''1''], [JStr ''b'', JStr ''2'']]"
  have n: "normalizeValue (JStr ''a'') = ''a''" "normalizeValue (JStr ''b'') = ''b''"
    "normalizeValue (JStr ''c'') = ''c''"
    by (simp_all add: normalizeValue_def trim_def isWhiteSpace_def)
  have u: "\<forall>j. 0 < j \<and> j < length ?t \<and> j \<noteq> 1 \<longrightarrow>
         normalizeValue (cellAt (?t ! j) 0) \<noteq> normalizeValue (?t ! 1 ! 0)"
  proof (intro allI impI)
    fix j :: nat assume "0 < j \<and> j < length ?t \<and> j \<noteq> 1"
    then have "j = 2" by simp
    then show "normalizeValue (cellAt (?t ! j) 0) \<noteq> normalizeValue (?t ! 1 ! 0)"
      by (simp add: cellAt_def n)
  qed
  have f: "\<forall>j. 0 < j \<and> j < length ?t \<longrightarrow>
         normalizeValue (cellAt (?t ! j) 0) \<noteq> normalizeValue (JStr ''c'')"
  proof (intro allI impI)
    fix j :: nat assume "0 < j \<and> j < length ?t"
    then have "j = 1 \<or> j = 2" by auto
    then show "normalizeValue (cellAt (?t ! j) 0) \<noteq> normalizeValue (JStr ''c'')"
      by (auto simp: cellAt_def n)
  qed
  have p1: "distinct (map fst ([] @ (''S'', ?t) # []))" by simp
  have p2: "(0::nat) < 1" "1 < length ?t" by simp_all
  have p3: "?t ! 1 \<noteq> []" by simp
  have p4: "normalizeValue (?t ! 1 ! 0) \<noteq> []" by (simp add: n)
  have p5: "normalizeValue (JStr ''c'') \<noteq> []" by (simp add: n)
  note inst = key_change_is_insert_and_remove [OF p1 p2 p3 p4 p5 u f]
  from inst
  have "detectChanges ([] @ (''S'', ?t) # []) ([] @ (''S'', ?t[1 := (?t ! 1)[0 := JStr ''c'']]) # [])
     = Inr [insertRowEvent ''S'' (1 + 1)
              (maxCol (dataRows ?t) (dataRows (?t[1 := (?t ! 1)[0 := JStr ''c'']]))
                 ((?t ! 1)[0 := JStr ''c''])) ((?t ! 1)[0 := JStr ''c'']),
            removeRowEvent ''S'' (1 + 1)
              (maxCol (dataRows ?t) (dataRows (?t[1 := (?t ! 1)[0 := JStr ''c'']])) (?t ! 1))
              (?t ! 1)]"
    by (rule conjunct1)
  then show ?thesis by (simp add: maxCol_def dataRows_def numeral_2_eq_2)
qed

end
